theory Spec2Isabelle
  imports Complex_Main "HOL-Library.Log_Nat" "HOL-Library.Word"
begin

unbundle bit_operations_syntax

section \<open>IEEE 754 binary64 arithmetic\<close>

text \<open>
  The renderer computes in C \<^verbatim>\<open>double\<close>. A double is a signed zero, a finite number
  \<open>\<plusminus> m * 2 ^ e\<close>, an infinity or a NaN. Finite values are kept in canonical form:
  \<open>0 \<le> m < 2 ^ 53\<close>, \<open>- 1074 \<le> e \<le> 971\<close>, and \<open>2 ^ 52 \<le> m\<close> unless \<open>e = - 1074\<close>
  (subnormal numbers and zero). The sign is \<open>True\<close> for negative.
  Every operation computes the exact result and rounds it to the nearest double,
  ties to the even mantissa (the default rounding mode).
\<close>

datatype double = Finite bool int int | Infinity bool | NaN

text \<open>\<open>rne M k\<close> is \<open>M / 2 ^ k\<close> rounded to the nearest integer, ties to even.\<close>

definition rne :: "int \<Rightarrow> nat \<Rightarrow> int" where
  "rne M k = (let q = M div 2 ^ k; r = M mod 2 ^ k in
     if 2 * r < 2 ^ k then q else if 2 * r > 2 ^ k then q + 1
     else if even q then q else q + 1)"

text \<open>
  \<open>fround s M E\<close> rounds the exact magnitude \<open>M * 2 ^ E\<close> (\<open>M \<ge> 0\<close>) with sign \<open>s\<close>:
  53 significant bits, not below the subnormal exponent, infinity beyond the largest
  finite double.
\<close>

definition fround :: "bool \<Rightarrow> int \<Rightarrow> int \<Rightarrow> double" where
  "fround s M E = (if M = 0 then Finite s 0 (- 1074) else
     let e = max (E + bitlen M - 53) (- 1074);
         m = (if e \<le> E then M * 2 ^ nat (E - e) else rne M (nat (e - E)));
         e' = (if m = 2 ^ 53 then e + 1 else e);
         m' = (if m = 2 ^ 53 then 2 ^ 52 else m)
     in if e' > 971 then Infinity s else Finite s m' e')"

definition signed :: "bool \<Rightarrow> int \<Rightarrow> int" where
  "signed s m = (if s then - m else m)"

fun dneg :: "double \<Rightarrow> double" where
  "dneg (Finite s m e) = Finite (\<not> s) m e"
| "dneg (Infinity s) = Infinity (\<not> s)"
| "dneg NaN = NaN"

fun dadd :: "double \<Rightarrow> double \<Rightarrow> double" where
  "dadd NaN _ = NaN"
| "dadd _ NaN = NaN"
| "dadd (Infinity s1) (Infinity s2) = (if s1 = s2 then Infinity s1 else NaN)"
| "dadd (Infinity s1) (Finite _ _ _) = Infinity s1"
| "dadd (Finite _ _ _) (Infinity s2) = Infinity s2"
| "dadd (Finite s1 m1 e1) (Finite s2 m2 e2) =
     (let e = min e1 e2;
          M = signed s1 (m1 * 2 ^ nat (e1 - e)) + signed s2 (m2 * 2 ^ nat (e2 - e))
      in if M = 0 then Finite (s1 \<and> s2) 0 (- 1074) else fround (M < 0) \<bar>M\<bar> e)"

definition dsub :: "double \<Rightarrow> double \<Rightarrow> double" where
  "dsub a b = dadd a (dneg b)"

fun dmul :: "double \<Rightarrow> double \<Rightarrow> double" where
  "dmul NaN _ = NaN"
| "dmul _ NaN = NaN"
| "dmul (Infinity s1) (Infinity s2) = Infinity (s1 \<noteq> s2)"
| "dmul (Infinity s1) (Finite s2 m2 _) = (if m2 = 0 then NaN else Infinity (s1 \<noteq> s2))"
| "dmul (Finite s1 m1 _) (Infinity s2) = (if m1 = 0 then NaN else Infinity (s1 \<noteq> s2))"
| "dmul (Finite s1 m1 e1) (Finite s2 m2 e2) = fround (s1 \<noteq> s2) (m1 * m2) (e1 + e2)"

text \<open>
  Division: the quotient of the mantissas is taken with at least 57 bits, and a last
  bit records whether the division left a remainder, so that rounding the result
  decides as it would on the exact quotient.
\<close>

fun ddiv :: "double \<Rightarrow> double \<Rightarrow> double" where
  "ddiv NaN _ = NaN"
| "ddiv _ NaN = NaN"
| "ddiv (Infinity s1) (Infinity s2) = NaN"
| "ddiv (Infinity s1) (Finite s2 _ _) = Infinity (s1 \<noteq> s2)"
| "ddiv (Finite s1 _ _) (Infinity s2) = Finite (s1 \<noteq> s2) 0 (- 1074)"
| "ddiv (Finite s1 m1 e1) (Finite s2 m2 e2) =
     (if m2 = 0 then (if m1 = 0 then NaN else Infinity (s1 \<noteq> s2))
      else let n = m1 * 2 ^ 110; q = n div m2; r = n mod m2
           in fround (s1 \<noteq> s2) (2 * q + (if r = 0 then 0 else 1)) (e1 - e2 - 111))"

text \<open>The comparison \<^verbatim>\<open>a >= b\<close>: false as soon as one side is a NaN.\<close>

fun dge :: "double \<Rightarrow> double \<Rightarrow> bool" where
  "dge NaN _ = False"
| "dge _ NaN = False"
| "dge (Infinity s1) (Infinity s2) = (s2 \<or> \<not> s1)"
| "dge (Infinity s1) (Finite _ _ _) = (\<not> s1)"
| "dge (Finite _ _ _) (Infinity s2) = s2"
| "dge (Finite s1 m1 e1) (Finite s2 m2 e2) =
     (let e = min e1 e2
      in signed s2 (m2 * 2 ^ nat (e2 - e)) \<le> signed s1 (m1 * 2 ^ nat (e1 - e)))"

text \<open>The comparison \<^verbatim>\<open>a == b\<close>: the two zeros are equal, a NaN equals nothing.\<close>

definition deq :: "double \<Rightarrow> double \<Rightarrow> bool" where
  "deq a b = (dge a b \<and> dge b a)"

text \<open>Conversion of a C \<^verbatim>\<open>int\<close> (exact) and the literals of the source.\<close>

definition double_of_int :: "int \<Rightarrow> double" where
  "double_of_int i = fround (i < 0) \<bar>i\<bar> 0"

text \<open>
  A decimal literal \<open>p / q\<close> with \<open>p\<close> and \<open>q\<close> below \<open>2 ^ 53\<close> is the correctly
  rounded quotient: \<^verbatim>\<open>1.1\<close> is \<open>dlit 11 10\<close>.
\<close>

definition dlit :: "int \<Rightarrow> int \<Rightarrow> double" where
  "dlit p q = ddiv (double_of_int p) (double_of_int q)"

text \<open>
  The cast \<^verbatim>\<open>(uint8_t) x\<close> discards the fraction; C leaves it undefined when the
  integral part is not in \<open>0 .. 255\<close>, which is \<open>None\<close> here.
\<close>

fun u8_of_double :: "double \<Rightarrow> 8 word option" where
  "u8_of_double (Finite s m e) =
     (let t = (if 0 \<le> e then m * 2 ^ nat e else m div 2 ^ nat (- e));
          v = signed s t
      in if 0 \<le> v \<and> v \<le> 255 then Some (word_of_int v) else None)"
| "u8_of_double _ = None"

subsection \<open>The value of a double\<close>

text \<open>
  The real number a finite double stands for (\<open>0\<close> for an infinity or a NaN, which
  the lemmas exclude by \<open>is_finite\<close>), the canonical form, and the real numbers that
  some double stands for exactly.
\<close>

fun dval :: "double \<Rightarrow> real" where
  "dval (Finite s m e) = of_int (signed s m) * 2 powi e"
| "dval (Infinity s) = 0"
| "dval NaN = 0"

fun is_finite :: "double \<Rightarrow> bool" where
  "is_finite (Finite s m e) = True"
| "is_finite (Infinity s) = False"
| "is_finite NaN = False"

fun valid :: "double \<Rightarrow> bool" where
  "valid (Finite s m e) =
     (0 \<le> m \<and> m < 2 ^ 53 \<and> - 1074 \<le> e \<and> e \<le> 971 \<and> (e = - 1074 \<or> 2 ^ 52 \<le> m))"
| "valid (Infinity s) = True"
| "valid NaN = True"

definition representable :: "real \<Rightarrow> bool" where
  "representable r =
     (\<exists>n c. \<bar>n\<bar> < 2 ^ 53 \<and> - 1074 \<le> c \<and> c \<le> 971 \<and> r = of_int n * 2 powi c)"

text \<open>
  \<open>rounds x d\<close>: the double \<open>d\<close> is a correct rounding of the exact result \<open>x\<close>. It
  never crosses a number that a double stands for exactly, and a finite \<open>d\<close> is within
  one unit in the last place of \<open>x\<close>.
\<close>

definition rounds :: "real \<Rightarrow> double \<Rightarrow> bool" where
  "rounds x d =
     (valid d \<and> d \<noteq> NaN \<and>
      (\<forall>r. representable r \<and> x \<le> r \<longrightarrow> d \<noteq> Infinity False \<and> (is_finite d \<longrightarrow> dval d \<le> r)) \<and>
      (\<forall>r. representable r \<and> r \<le> x \<longrightarrow> d \<noteq> Infinity True \<and> (is_finite d \<longrightarrow> r \<le> dval d)) \<and>
      (is_finite d \<longrightarrow> \<bar>dval d - x\<bar> \<le> \<bar>x\<bar> / 2 ^ 52 + 2 powi (- 1075)))"

text \<open>\<open>bounded d n p\<close>: the finite double \<open>d\<close> lies between \<open>0\<close> and \<open>n / 2 ^ p\<close>.\<close>

definition bounded :: "double \<Rightarrow> int \<Rightarrow> nat \<Rightarrow> bool" where
  "bounded d n p = (is_finite d \<and> valid d \<and> 0 \<le> dval d \<and> dval d \<le> of_int n / 2 ^ p)"

section \<open>The program\<close>

subsection \<open>Constants and data\<close>

definition WIDTH :: int where "WIDTH = 800"
definition HEIGHT :: int where "HEIGHT = 800"
definition MAX_ITER :: nat where "MAX_ITER = 1000"
definition NUM_THREADS :: nat where "NUM_THREADS = 16"

text \<open>
  \<^verbatim>\<open>struct Mandelbrot\<close>: the view (centre and zoom). Its pixel buffer is passed
  separately, as the array it points to.
\<close>

record Mandelbrot =
  centerX :: double
  centerY :: double
  zoom :: double

text \<open>\<^verbatim>\<open>struct ThreadData\<close>: the rows \<open>startY \<le> y < endY\<close> of one thread.\<close>

record ThreadData =
  startY :: int
  endY :: int

subsection \<open>The escape-time loop of \<^verbatim>\<open>renderPart\<close>\<close>

text \<open>The local variables of the per-pixel loop.\<close>

record pixel_state =
  zr :: double
  zi :: double
  zr2 :: double
  zi2 :: double
  iter :: nat

definition bailout :: "pixel_state \<Rightarrow> bool" where
  "bailout s = dge (dadd (zr2 s) (zi2 s)) (double_of_int 4)"

text \<open>
  The body of the inner \<^verbatim>\<open>for\<close> loop up to its test:
  \<^verbatim>\<open>zi = zr * zi; zi += zi + imag; zr = zr2 - zi2 + real; iter++;
  zr2 = zr * zr; zi2 = zi * zi;\<close>
\<close>

definition iterate :: "double \<Rightarrow> double \<Rightarrow> pixel_state \<Rightarrow> pixel_state" where
  "iterate re im s =
     (let zi' = dmul (zr s) (zi s);
          zi'' = dadd zi' (dadd zi' im);
          zr' = dadd (dsub (zr2 s) (zi2 s)) re
      in \<lparr>zr = zr', zi = zi'', zr2 = dmul zr' zr', zi2 = dmul zi'' zi'', iter = iter s + 1\<rparr>)"

text \<open>
  \<^verbatim>\<open>for (int i = 0; i < 2 && iter < MAX_ITER; i++) { ...; if (zr2 + zi2 >= 4.0) break; }\<close>
\<close>

function unrolled :: "nat \<Rightarrow> double \<Rightarrow> double \<Rightarrow> nat \<Rightarrow> pixel_state \<Rightarrow> pixel_state" where
  "unrolled maxIter re im i s =
     (if i < 2 \<and> iter s < maxIter then
        let s' = iterate re im s
        in if bailout s' then s' else unrolled maxIter re im (i + 1) s'
      else s)"
  by pat_completeness auto
termination
  by (relation "measure (\<lambda>(maxIter, re, im, i, s). 2 - i)") auto

declare unrolled.simps [simp del]

lemma unrolled_stop:
  "\<not> (i < 2 \<and> iter s < maxIter) \<Longrightarrow> unrolled maxIter re im i s = s"
  by (subst unrolled.simps) auto

lemma unrolled_break:
  "i < 2 \<Longrightarrow> iter s < maxIter \<Longrightarrow> bailout (iterate re im s) \<Longrightarrow>
   unrolled maxIter re im i s = iterate re im s"
  by (subst unrolled.simps) auto

lemma unrolled_cont:
  "i < 2 \<Longrightarrow> iter s < maxIter \<Longrightarrow> \<not> bailout (iterate re im s) \<Longrightarrow>
   unrolled maxIter re im i s = unrolled maxIter re im (i + 1) (iterate re im s)"
  by (subst unrolled.simps) auto

lemma iter_iterate: "iter (iterate re im s) = iter s + 1"
  by (simp add: iterate_def Let_def)

lemma unrolled_iter_le: "iter s \<le> iter (unrolled maxIter re im i s)"
proof (induction maxIter re im i s rule: unrolled.induct)
  case (1 maxIter re im i s)
  show ?case
  proof (cases "i < 2 \<and> iter s < maxIter")
    case True
    show ?thesis
    proof (cases "bailout (iterate re im s)")
      case True
      with \<open>i < 2 \<and> iter s < maxIter\<close> show ?thesis
        by (simp add: unrolled_break iter_iterate)
    next
      case False
      with True "1.IH" [OF True refl False] show ?thesis
        by (simp add: unrolled_cont iter_iterate)
    qed
  next
    case False
    then have "unrolled maxIter re im i s = s" by (rule unrolled_stop)
    then show ?thesis by simp
  qed
qed

lemma unrolled_progress:
  assumes "iter s < maxIter"
  shows "iter s < iter (unrolled maxIter re im 0 s)"
proof (cases "bailout (iterate re im s)")
  case True
  with assms show ?thesis
    by (simp add: unrolled_break iter_iterate)
next
  case False
  have "iter (iterate re im s) \<le> iter (unrolled maxIter re im 1 (iterate re im s))"
    by (rule unrolled_iter_le)
  with False assms show ?thesis
    by (simp add: unrolled_cont iter_iterate)
qed

lemma unrolled_bound:
  "iter s \<le> maxIter \<Longrightarrow> iter (unrolled maxIter re im i s) \<le> maxIter"
proof (induction maxIter re im i s rule: unrolled.induct)
  case (1 maxIter re im i s)
  show ?case
  proof (cases "i < 2 \<and> iter s < maxIter")
    case True
    show ?thesis
    proof (cases "bailout (iterate re im s)")
      case True
      with \<open>i < 2 \<and> iter s < maxIter\<close> show ?thesis
        by (simp add: unrolled_break iter_iterate)
    next
      case False
      from True have "iter (iterate re im s) \<le> maxIter" by (simp add: iter_iterate)
      with True False "1.IH" [OF True refl False] show ?thesis
        by (simp add: unrolled_cont)
    qed
  next
    case False
    then have "unrolled maxIter re im i s = s" by (rule unrolled_stop)
    with "1.prems" show ?thesis by simp
  qed
qed

text \<open>
  \<^verbatim>\<open>while (iter < MAX_ITER) { zr2 = zr * zr; zi2 = zi * zi;
  if (zr2 + zi2 >= 4.0) break; for ... }\<close>
\<close>

definition squares :: "pixel_state \<Rightarrow> pixel_state" where
  "squares s = s\<lparr>zr2 := dmul (zr s) (zr s), zi2 := dmul (zi s) (zi s)\<rparr>"

function escape_loop :: "nat \<Rightarrow> double \<Rightarrow> double \<Rightarrow> pixel_state \<Rightarrow> pixel_state" where
  "escape_loop maxIter re im s =
     (if iter s < maxIter then
        let s1 = squares s
        in if bailout s1 then s1
           else escape_loop maxIter re im (unrolled maxIter re im 0 s1)
      else s)"
  by pat_completeness auto
termination
proof (relation "measure (\<lambda>(maxIter, re, im, s). maxIter - iter s)")
  show "wf (measure (\<lambda>(maxIter, re, im, s). maxIter - iter s))" by simp
next
  fix maxIter :: nat and re im :: double and s x :: pixel_state
  assume a: "iter s < maxIter" and x: "x = squares s"
  from a x have "iter x < maxIter" by (simp add: squares_def)
  then have "iter x < iter (unrolled maxIter re im 0 x)" by (rule unrolled_progress)
  moreover have "iter x = iter s" using x by (simp add: squares_def)
  ultimately show "((maxIter, re, im, unrolled maxIter re im 0 x), (maxIter, re, im, s))
      \<in> measure (\<lambda>(maxIter, re, im, s). maxIter - iter s)"
    using a by simp
qed

declare escape_loop.simps [simp del]

lemma escape_loop_stop:
  "\<not> iter s < maxIter \<Longrightarrow> escape_loop maxIter re im s = s"
  by (subst escape_loop.simps) auto

lemma escape_loop_break:
  "iter s < maxIter \<Longrightarrow> bailout (squares s) \<Longrightarrow> escape_loop maxIter re im s = squares s"
  by (subst escape_loop.simps) auto

lemma escape_loop_cont:
  "iter s < maxIter \<Longrightarrow> \<not> bailout (squares s) \<Longrightarrow>
   escape_loop maxIter re im s = escape_loop maxIter re im (unrolled maxIter re im 0 (squares s))"
  by (subst escape_loop.simps) auto

text \<open>
  The iteration count of one pixel: \<^verbatim>\<open>double zr = 0.0, zi = 0.0; int iter = 0;
  double zr2, zi2;\<close> and the loop. The two squares are written before they are read;
  they start here as zero.
\<close>

definition dzero :: double where "dzero = Finite False 0 (- 1074)"

definition pixel_iter :: "nat \<Rightarrow> double \<Rightarrow> double \<Rightarrow> nat" where
  "pixel_iter maxIter re im =
     iter (escape_loop maxIter re im \<lparr>zr = dzero, zi = dzero, zr2 = dzero, zi2 = dzero, iter = 0\<rparr>)"

subsection \<open>The orbit and the loop of the specification\<close>

text \<open>
  One step \<open>z \<mapsto> z\<^sup>2 + c\<close> on the pair (real part, imaginary part), with the
  operations in the order of the source, and the squared magnitude \<open>re\<^sup>2 + im\<^sup>2\<close>.
\<close>

definition z_next :: "double \<Rightarrow> double \<Rightarrow> double \<times> double \<Rightarrow> double \<times> double" where
  "z_next re im z =
     (let p = dmul (fst z) (snd z)
      in (dadd (dsub (dmul (fst z) (fst z)) (dmul (snd z) (snd z))) re, dadd p (dadd p im)))"

definition sq_norm :: "double \<times> double \<Rightarrow> double" where
  "sq_norm z = dadd (dmul (fst z) (fst z)) (dmul (snd z) (snd z))"

fun orbit :: "double \<Rightarrow> double \<Rightarrow> nat \<Rightarrow> double \<times> double" where
  "orbit re im 0 = (dzero, dzero)"
| "orbit re im (Suc n) = z_next re im (orbit re im n)"

text \<open>
  The straightforward loop, as the specification writes it:
  \<^verbatim>\<open>z = 0; iter = 0; while iter < MaxIter: if |z|^2 >= 4.0: break; z = z^2 + c; iter += 1\<close>
\<close>

function spec_loop :: "nat \<Rightarrow> double \<Rightarrow> double \<Rightarrow> double \<times> double \<Rightarrow> nat \<Rightarrow> nat" where
  "spec_loop maxIter re im z n =
     (if n < maxIter then
        if dge (sq_norm z) (double_of_int 4) then n
        else spec_loop maxIter re im (z_next re im z) (n + 1)
      else n)"
  by pat_completeness auto
termination
  by (relation "measure (\<lambda>(maxIter, re, im, z, n). maxIter - n)") auto

declare spec_loop.simps [simp del]

definition spec_iter :: "nat \<Rightarrow> double \<Rightarrow> double \<Rightarrow> nat" where
  "spec_iter maxIter re im = spec_loop maxIter re im (dzero, dzero) 0"

subsection \<open>The viewport transform of \<^verbatim>\<open>renderPart\<close>\<close>

text \<open>
  \<^verbatim>\<open>double imag = (y - HEIGHT / 2.0) / (0.5 * m->zoom * HEIGHT) + m->centerY;\<close> and
  \<^verbatim>\<open>double real = (x - WIDTH / 2.0) / (0.5 * m->zoom * WIDTH) + m->centerX;\<close>
\<close>

definition pixel_imag :: "Mandelbrot \<Rightarrow> int \<Rightarrow> double" where
  "pixel_imag m y =
     dadd (ddiv (dsub (double_of_int y) (ddiv (double_of_int HEIGHT) (double_of_int 2)))
                (dmul (dmul (dlit 1 2) (zoom m)) (double_of_int HEIGHT)))
          (centerY m)"

definition pixel_real :: "Mandelbrot \<Rightarrow> int \<Rightarrow> double" where
  "pixel_real m x =
     dadd (ddiv (dsub (double_of_int x) (ddiv (double_of_int WIDTH) (double_of_int 2)))
                (dmul (dmul (dlit 1 2) (zoom m)) (double_of_int WIDTH)))
          (centerX m)"

subsection \<open>\<^verbatim>\<open>generateColorPalette\<close>\<close>

text \<open>
  The three channels of entry \<open>i\<close>, before the cast to \<^verbatim>\<open>uint8_t\<close>, with
  \<^verbatim>\<open>double t = (double)i / MAX_ITER;\<close>. C multiplies from the left.
\<close>

definition palette_t :: "nat \<Rightarrow> double" where
  "palette_t i = ddiv (double_of_int (int i)) (double_of_int (int MAX_ITER))"

definition one_minus :: "double \<Rightarrow> double" where
  "one_minus t = dsub (double_of_int 1) t"

definition red :: "double \<Rightarrow> double" where
  "red t = dmul (dmul (dmul (dmul (dmul (double_of_int 9) (one_minus t)) t) t) t)
                (double_of_int 255)"

definition green :: "double \<Rightarrow> double" where
  "green t = dmul (dmul (dmul (dmul (dmul (double_of_int 15) (one_minus t)) (one_minus t)) t) t)
                  (double_of_int 255)"

definition blue :: "double \<Rightarrow> double" where
  "blue t = dmul (dmul (dmul (dmul (dmul (dlit 17 2) (one_minus t)) (one_minus t)) (one_minus t)) t)
                 (double_of_int 255)"

text \<open>\<^verbatim>\<open>(0xFF << 24) | (r << 16) | (g << 8) | b\<close>, stored as \<^verbatim>\<open>Uint32\<close>.\<close>

definition pack :: "8 word \<Rightarrow> 8 word \<Rightarrow> 8 word \<Rightarrow> 32 word" where
  "pack r g b = push_bit 24 0xFF OR push_bit 16 (ucast r) OR push_bit 8 (ucast g) OR ucast b"

definition palette_entry :: "nat \<Rightarrow> 32 word option" where
  "palette_entry i =
     (let t = palette_t i in
      case u8_of_double (red t) of None \<Rightarrow> None | Some r \<Rightarrow>
      case u8_of_double (green t) of None \<Rightarrow> None | Some g \<Rightarrow>
      case u8_of_double (blue t) of None \<Rightarrow> None | Some b \<Rightarrow> Some (pack r g b))"

text \<open>
  \<^verbatim>\<open>for (int i = 0; i <= MAX_ITER; i++) { ...; colorPalette[i] = ...; }\<close> on the array
  \<^verbatim>\<open>static Uint32 colorPalette[MAX_ITER + 1]\<close>, which starts zeroed. The result is
  \<open>None\<close> when a cast is undefined.
\<close>

function fill_palette :: "nat \<Rightarrow> 32 word list \<Rightarrow> 32 word list option" where
  "fill_palette i pal =
     (if i \<le> MAX_ITER then
        case palette_entry i of None \<Rightarrow> None
        | Some c \<Rightarrow> fill_palette (i + 1) (pal[i := c])
      else Some pal)"
  by pat_completeness auto
termination
  by (relation "measure (\<lambda>(i, pal). MAX_ITER + 1 - i)") auto

declare fill_palette.simps [simp del]

definition colorPalette0 :: "32 word list" where
  "colorPalette0 = replicate (MAX_ITER + 1) 0"

definition generateColorPalette :: "32 word list option" where
  "generateColorPalette = fill_palette 0 colorPalette0"

text \<open>
  The read \<^verbatim>\<open>colorPalette[i]\<close> after the table has been generated; \<open>None\<close> when the
  generation is undefined or the index is outside the array.
\<close>

definition colorPalette :: "nat \<Rightarrow> 32 word option" where
  "colorPalette i =
     (case generateColorPalette of None \<Rightarrow> None
      | Some pal \<Rightarrow> if i < length pal then Some (pal ! i) else None)"

text \<open>
  The table as the specification writes it, in exact arithmetic:
  \<^verbatim>\<open>r = round(9 * (1-t) * t^3 * 255)\<close>, \<^verbatim>\<open>g = round(15 * (1-t)^2 * t^2 * 255)\<close>,
  \<^verbatim>\<open>b = round(8.5 * (1-t)^3 * t * 255)\<close>,
  \<^verbatim>\<open>color[i] = alpha(0xFF) | r<<16 | g<<8 | b\<close> with \<open>t = i / MaxIter\<close>.
\<close>

definition spec_color :: "nat \<Rightarrow> nat \<Rightarrow> 32 word" where
  "spec_color maxIter i =
     (let t = real i / real maxIter;
          r = round (9 * (1 - t) * t ^ 3 * 255);
          g = round (15 * (1 - t) ^ 2 * t ^ 2 * 255);
          b = round (8.5 * (1 - t) ^ 3 * t * 255)
      in push_bit 24 0xFF OR push_bit 16 (word_of_int r) OR push_bit 8 (word_of_int g)
         OR word_of_int b)"

text \<open>
  For bounding the channels: with \<open>k / 128 \<le> t \<le> (k + 1) / 128\<close> the three
  polynomials stay below \<open>1\<close>, and every intermediate bound is a double.
\<close>

definition grid_ok :: "int \<Rightarrow> bool" where
  "grid_ok k =
     (let u = 128 - k; t = k + 1
      in 0 \<le> u \<and> 0 \<le> t \<and>
         9 * u < 2 ^ 53 \<and> 9 * u * t < 2 ^ 53 \<and> 9 * u * t * t < 2 ^ 53 \<and>
         9 * u * t * t * t \<le> 2 ^ 28 \<and>
         15 * u < 2 ^ 53 \<and> 15 * u * u < 2 ^ 53 \<and> 15 * u * u * t < 2 ^ 53 \<and>
         15 * u * u * t * t \<le> 2 ^ 28 \<and>
         17 * u < 2 ^ 53 \<and> 17 * u * u < 2 ^ 53 \<and> 17 * u * u * u < 2 ^ 53 \<and>
         17 * u * u * u * t \<le> 2 ^ 29)"

subsection \<open>\<^verbatim>\<open>renderPart\<close>\<close>

text \<open>
  The column loop of one row, \<^verbatim>\<open>for (int x = 0; x < WIDTH; x++) { ...;
  row[x] = colorPalette[iter]; }\<close> with \<^verbatim>\<open>row = &pixels[y * WIDTH]\<close>. An index outside
  the palette or the pixel buffer is \<open>None\<close>.
\<close>

function render_row ::
  "Mandelbrot \<Rightarrow> 32 word list \<Rightarrow> double \<Rightarrow> int \<Rightarrow> int \<Rightarrow> 32 word list \<Rightarrow> 32 word list option" where
  "render_row m palette im y x pixels =
     (if x < WIDTH then
        let re = pixel_real m x;
            it = pixel_iter MAX_ITER re im;
            k = y * WIDTH + x
        in if it < length palette \<and> 0 \<le> k \<and> k < int (length pixels)
           then render_row m palette im y (x + 1) (pixels[nat k := palette ! it])
           else None
      else Some pixels)"
  by pat_completeness auto
termination
  by (relation "measure (\<lambda>(m, palette, im, y, x, pixels). nat (WIDTH - x))") auto

declare render_row.simps [simp del]

text \<open>The row loop, \<^verbatim>\<open>for (int y = data->startY; y < data->endY; y++)\<close>.\<close>

function render_rows ::
  "Mandelbrot \<Rightarrow> 32 word list \<Rightarrow> int \<Rightarrow> int \<Rightarrow> 32 word list \<Rightarrow> 32 word list option" where
  "render_rows m palette y yEnd pixels =
     (if y < yEnd then
        case render_row m palette (pixel_imag m y) y 0 pixels of None \<Rightarrow> None
        | Some pixels' \<Rightarrow> render_rows m palette (y + 1) yEnd pixels'
      else Some pixels)"
  by pat_completeness auto
termination
  by (relation "measure (\<lambda>(m, palette, y, yEnd, pixels). nat (yEnd - y))") auto

declare render_rows.simps [simp del]

definition renderPart ::
  "Mandelbrot \<Rightarrow> 32 word list \<Rightarrow> ThreadData \<Rightarrow> 32 word list \<Rightarrow> 32 word list option" where
  "renderPart m palette data pixels = render_rows m palette (startY data) (endY data) pixels"

subsection \<open>The slices of \<^verbatim>\<open>drawMandelbrot\<close>\<close>

text \<open>
  \<^verbatim>\<open>int sliceHeight = HEIGHT / NUM_THREADS;\<close> and, for thread \<open>i\<close>,
  \<^verbatim>\<open>startY = i * sliceHeight; endY = (i == NUM_THREADS - 1) ? HEIGHT : (i + 1) * sliceHeight;\<close>
  The image height and the number of threads are arguments here.
\<close>

definition slice :: "int \<Rightarrow> nat \<Rightarrow> nat \<Rightarrow> ThreadData" where
  "slice height n i =
     (let sliceHeight = height div int n
      in \<lparr>startY = int i * sliceHeight,
          endY = (if i = n - 1 then height else (int i + 1) * sliceHeight)\<rparr>)"

definition threadData :: "int \<Rightarrow> nat \<Rightarrow> ThreadData list" where
  "threadData height n = map (slice height n) [0..<n]"

definition rows :: "ThreadData \<Rightarrow> int set" where
  "rows d = {startY d..<endY d}"

subsection \<open>The mouse events of \<^verbatim>\<open>main\<close>\<close>

text \<open>
  \<^verbatim>\<open>mandelbrot.zoom *= (event.wheel.y > 0) ? 1.1 : 1 / 1.1;\<close> The argument is the
  test \<^verbatim>\<open>event.wheel.y > 0\<close>.
\<close>

definition mouse_wheel :: "bool \<Rightarrow> Mandelbrot \<Rightarrow> Mandelbrot" where
  "mouse_wheel up m =
     m\<lparr>zoom := dmul (zoom m) (if up then dlit 11 10 else ddiv (double_of_int 1) (dlit 11 10))\<rparr>"

text \<open>
  Dragging: \<^verbatim>\<open>centerX -= (event.motion.x - prevMouseX) / (zoom * WIDTH);\<close> and the same
  for \<open>y\<close>. The arguments are the two differences, converted to \<^verbatim>\<open>double\<close>.
\<close>

definition mouse_motion :: "double \<Rightarrow> double \<Rightarrow> Mandelbrot \<Rightarrow> Mandelbrot" where
  "mouse_motion dx dy m =
     m\<lparr>centerX := dsub (centerX m) (ddiv dx (dmul (zoom m) (double_of_int WIDTH))),
       centerY := dsub (centerY m) (ddiv dy (dmul (zoom m) (double_of_int HEIGHT)))\<rparr>"

text \<open>\<^verbatim>\<open>Mandelbrot mandelbrot = {-0.5, 0.0, 1.0, NULL};\<close>\<close>

definition mandelbrot0 :: Mandelbrot where
  "mandelbrot0 = \<lparr>centerX = dneg (dlit 1 2), centerY = dzero, zoom = double_of_int 1\<rparr>"

section \<open>The escape-time loop\<close>

lemma bailout_sq_norm:
  "zr2 s = dmul (zr s) (zr s) \<Longrightarrow> zi2 s = dmul (zi s) (zi s) \<Longrightarrow>
   bailout s = dge (sq_norm (zr s, zi s)) (double_of_int 4)"
  by (simp add: bailout_def sq_norm_def)

lemma iterate_z_next:
  "zr2 s = dmul (zr s) (zr s) \<Longrightarrow> zi2 s = dmul (zi s) (zi s) \<Longrightarrow>
   (zr (iterate re im s), zi (iterate re im s)) = z_next re im (zr s, zi s)"
  by (simp add: iterate_def z_next_def Let_def)

lemma iterate_squares:
  "zr2 (iterate re im s) = dmul (zr (iterate re im s)) (zr (iterate re im s)) \<and>
   zi2 (iterate re im s) = dmul (zi (iterate re im s)) (zi (iterate re im s))"
  by (simp add: iterate_def Let_def)

lemma spec_loop_stop: "\<not> n < maxIter \<Longrightarrow> spec_loop maxIter re im z n = n"
  by (subst spec_loop.simps) auto

lemma spec_loop_break:
  "n < maxIter \<Longrightarrow> dge (sq_norm z) (double_of_int 4) \<Longrightarrow> spec_loop maxIter re im z n = n"
  by (subst spec_loop.simps) auto

lemma spec_loop_cont:
  "n < maxIter \<Longrightarrow> \<not> dge (sq_norm z) (double_of_int 4) \<Longrightarrow>
   spec_loop maxIter re im z n = spec_loop maxIter re im (z_next re im z) (n + 1)"
  by (subst spec_loop.simps) auto

lemma unrolled_spec_loop:
  "zr2 s = dmul (zr s) (zr s) \<Longrightarrow> zi2 s = dmul (zi s) (zi s) \<Longrightarrow> \<not> bailout s \<Longrightarrow>
   spec_loop maxIter re im (zr (unrolled maxIter re im i s), zi (unrolled maxIter re im i s))
     (iter (unrolled maxIter re im i s))
   = spec_loop maxIter re im (zr s, zi s) (iter s)"
proof (induction maxIter re im i s rule: unrolled.induct)
  case (1 maxIter re im i s)
  let ?s' = "iterate re im s"
  show ?case
  proof (cases "i < 2 \<and> iter s < maxIter")
    case False
    then have "unrolled maxIter re im i s = s" by (rule unrolled_stop)
    then show ?thesis by simp
  next
    case True
    have nb: "\<not> dge (sq_norm (zr s, zi s)) (double_of_int 4)"
      using "1.prems" by (simp add: bailout_sq_norm)
    have step: "spec_loop maxIter re im (zr s, zi s) (iter s)
        = spec_loop maxIter re im (zr ?s', zi ?s') (iter ?s')"
      using True nb "1.prems"
      by (simp add: spec_loop_cont iterate_z_next iter_iterate)
    show ?thesis
    proof (cases "bailout ?s'")
      case True
      with \<open>i < 2 \<and> iter s < maxIter\<close> have "unrolled maxIter re im i s = ?s'"
        by (simp add: unrolled_break)
      with step show ?thesis by simp
    next
      case False
      with True have u: "unrolled maxIter re im i s = unrolled maxIter re im (i + 1) ?s'"
        by (simp add: unrolled_cont)
      have "spec_loop maxIter re im
              (zr (unrolled maxIter re im (i + 1) ?s'), zi (unrolled maxIter re im (i + 1) ?s'))
              (iter (unrolled maxIter re im (i + 1) ?s'))
            = spec_loop maxIter re im (zr ?s', zi ?s') (iter ?s')"
        using "1.IH" [OF True refl False] iterate_squares [of re im s] False by blast
      with u step show ?thesis by simp
    qed
  qed
qed

lemma escape_loop_spec_loop:
  "iter (escape_loop maxIter re im s) = spec_loop maxIter re im (zr s, zi s) (iter s)"
proof (induction maxIter re im s rule: escape_loop.induct)
  case (1 maxIter re im s)
  let ?s1 = "squares s"
  have sq: "zr2 ?s1 = dmul (zr ?s1) (zr ?s1)" "zi2 ?s1 = dmul (zi ?s1) (zi ?s1)"
    "zr ?s1 = zr s" "zi ?s1 = zi s" "iter ?s1 = iter s"
    by (simp_all add: squares_def)
  show ?case
  proof (cases "iter s < maxIter")
    case False
    then show ?thesis by (simp add: escape_loop_stop spec_loop_stop)
  next
    case True
    show ?thesis
    proof (cases "bailout ?s1")
      case True
      then have "dge (sq_norm (zr s, zi s)) (double_of_int 4)"
        using bailout_sq_norm [OF sq(1,2)] sq by simp
      with True \<open>iter s < maxIter\<close> show ?thesis
        by (simp add: escape_loop_break spec_loop_break sq)
    next
      case False
      let ?u = "unrolled maxIter re im 0 ?s1"
      have "iter (escape_loop maxIter re im ?u) = spec_loop maxIter re im (zr ?u, zi ?u) (iter ?u)"
        using "1.IH" [OF True refl False] .
      also have "\<dots> = spec_loop maxIter re im (zr ?s1, zi ?s1) (iter ?s1)"
        using unrolled_spec_loop [OF sq(1,2) False] .
      finally show ?thesis using True False by (simp add: escape_loop_cont sq)
    qed
  qed
qed

lemma spec_loop_orbit:
  "n \<le> maxIter \<Longrightarrow> z = orbit re im n \<Longrightarrow>
   n \<le> spec_loop maxIter re im z n \<and> spec_loop maxIter re im z n \<le> maxIter \<and>
   (\<forall>j. n \<le> j \<and> j < spec_loop maxIter re im z n \<longrightarrow>
        \<not> dge (sq_norm (orbit re im j)) (double_of_int 4)) \<and>
   (spec_loop maxIter re im z n < maxIter \<longrightarrow>
        dge (sq_norm (orbit re im (spec_loop maxIter re im z n))) (double_of_int 4))"
proof (induction maxIter re im z n rule: spec_loop.induct)
  case (1 maxIter re im z n)
  show ?case
  proof (cases "n < maxIter")
    case False
    with "1.prems" show ?thesis by (auto simp: spec_loop_stop)
  next
    case True
    show ?thesis
    proof (cases "dge (sq_norm z) (double_of_int 4)")
      case True
      with \<open>n < maxIter\<close> "1.prems" show ?thesis by (auto simp: spec_loop_break)
    next
      case False
      have eq: "spec_loop maxIter re im z n = spec_loop maxIter re im (z_next re im z) (n + 1)"
        using True False by (rule spec_loop_cont)
      have "n + 1 \<le> maxIter" "z_next re im z = orbit re im (n + 1)"
        using True "1.prems" by simp_all
      from "1.IH" [OF True False this] False "1.prems"(2) show ?thesis
        unfolding eq by (auto simp: le_Suc_eq less_Suc_eq_le dest: le_neq_implies_less)
    qed
  qed
qed


lemma fill_palette_length:
  "fill_palette i pal = Some pal' \<Longrightarrow> length pal' = length pal"
proof (induction i pal rule: fill_palette.induct)
  case (1 i pal)
  show ?case
  proof (cases "i \<le> MAX_ITER")
    case False
    with "1.prems" show ?thesis by (subst (asm) fill_palette.simps) simp
  next
    case True
    from "1.prems" True obtain c where c: "palette_entry i = Some c"
      and r: "fill_palette (i + 1) (pal[i := c]) = Some pal'"
      by (subst (asm) fill_palette.simps) (auto split: option.splits)
    from "1.IH" [OF True c r] show ?thesis by simp
  qed
qed

lemma slice_height_bound:
  assumes "0 < height" "0 < n"
  shows "0 \<le> height div int n" "int n * (height div int n) \<le> height"
proof -
  show "0 \<le> height div int n" using assms by (simp add: pos_imp_zdiv_nonneg_iff)
  have "int n * (height div int n) + height mod int n = height" by simp
  moreover have "0 \<le> height mod int n" using assms by simp
  ultimately show "int n * (height div int n) \<le> height" by linarith
qed


text \<open>
  Claim C1. For every constant \<open>c = (re, im)\<close>, the iteration count of the per-pixel loop
  is the smallest \<open>n\<close> at which the orbit \<open>z\<^sub>0 = 0\<close>, \<open>z\<^sub>n\<^sub>+\<^sub>1 = z\<^sub>n\<^sup>2 + c\<close> has squared
  magnitude \<open>re\<^sup>2 + im\<^sup>2 \<ge> 4.0\<close>, or \<open>maxIter\<close> when none of the first \<open>maxIter\<close> points
  of the orbit has.
\<close>

theorem pixel_iter_first_escape:
  "pixel_iter maxIter re im \<le> maxIter \<and>
   (\<forall>n < pixel_iter maxIter re im. \<not> dge (sq_norm (orbit re im n)) (double_of_int 4)) \<and>
   (pixel_iter maxIter re im < maxIter \<longrightarrow>
      dge (sq_norm (orbit re im (pixel_iter maxIter re im))) (double_of_int 4))"
proof -
  have "pixel_iter maxIter re im = spec_loop maxIter re im (dzero, dzero) 0"
    by (simp add: pixel_iter_def escape_loop_spec_loop)
  moreover have "0 \<le> maxIter" "(dzero, dzero) = orbit re im 0" by simp_all
  note spec_loop_orbit [OF this]
  ultimately show ?thesis by simp
qed

theorem pixel_iter_first_escape_witness:
  "pixel_iter 1000 (Finite True 6755399441055744 (- 52)) (Finite True 4503599627370496 (- 52)) = 2 \<and>
   \<not> dge (sq_norm (orbit (Finite True 6755399441055744 (- 52)) (Finite True 4503599627370496 (- 52)) 0))
          (double_of_int 4) \<and>
   \<not> dge (sq_norm (orbit (Finite True 6755399441055744 (- 52)) (Finite True 4503599627370496 (- 52)) 1))
          (double_of_int 4) \<and>
   dge (sq_norm (orbit (Finite True 6755399441055744 (- 52)) (Finite True 4503599627370496 (- 52)) 2))
       (double_of_int 4)"
proof -
  have k: "pixel_iter 1000 (Finite True 6755399441055744 (- 52)) (Finite True 4503599627370496 (- 52)) = 2"
    by code_simp
  have "(0::nat) < 2" "(1::nat) < 2" "(2::nat) < 1000" by simp_all
  with pixel_iter_first_escape [of 1000 "Finite True 6755399441055744 (- 52)"
      "Finite True 4503599627370496 (- 52)"] k
  show ?thesis by (metis One_nat_def)
qed

text \<open>
  Claim C2. For every input point the unrolled loop of the source returns the same
  iteration count as the straightforward loop of the specification.
\<close>

theorem unrolled_loop_refines_spec_loop:
  "pixel_iter maxIter re im = spec_iter maxIter re im"
  by (simp add: pixel_iter_def spec_iter_def escape_loop_spec_loop)

section \<open>The slices\<close>

text \<open>
  Claim C3. For every positive height and every positive number of threads, the row
  bands of the slices are pairwise disjoint and their union is exactly \<open>{0..<height}\<close>.
\<close>

theorem slices_partition_rows:
  assumes "0 < height" and "0 < n"
  shows "(\<Union>d \<in> set (threadData height n). rows d) = {0..<height} \<and>
         (\<forall>i < n. \<forall>j < n. i \<noteq> j \<longrightarrow>
            rows (threadData height n ! i) \<inter> rows (threadData height n ! j) = {})"
proof -
  define s where "s = height div int n"
  have s0: "0 \<le> s" and sn: "int n * s \<le> height"
    using slice_height_bound [OF assms] by (simp_all add: s_def)
  have rows_eq: "rows (slice height n i) =
      {int i * s..<(if i = n - 1 then height else (int i + 1) * s)}" for i
    by (simp add: rows_def slice_def s_def Let_def)
  have le_mono: "int i * s \<le> int j * s" if "i \<le> j" for i j
    using that s0 by (simp add: mult_right_mono)
  have upper: "(int i + 1) * s \<le> height" if "i < n" for i
  proof -
    have "(int i + 1) * s \<le> int n * s" using that s0 by (intro mult_right_mono) auto
    with sn show ?thesis by simp
  qed
  have disj: "rows (slice height n i) \<inter> rows (slice height n j) = {}"
    if "i < j" "j < n" for i j
  proof -
    from that have "i \<noteq> n - 1" by simp
    moreover have "(int i + 1) * s \<le> int j * s"
      using le_mono [of "Suc i" j] that by (simp add: algebra_simps)
    ultimately show ?thesis by (auto simp: rows_eq)
  qed
  have cover: "(\<Union>d \<in> set (threadData height n). rows d) = {0..<height}"
  proof (rule set_eqI, rule iffI)
    fix y assume "y \<in> (\<Union>d \<in> set (threadData height n). rows d)"
    then obtain i where i: "i < n" and y: "y \<in> rows (slice height n i)"
      by (auto simp: threadData_def)
    from y have "int i * s \<le> y" by (simp add: rows_eq)
    moreover have "0 \<le> int i * s" using s0 by simp
    moreover have "y < height" using y upper [OF i] by (auto simp: rows_eq split: if_splits)
    ultimately show "y \<in> {0..<height}" by simp
  next
    fix y assume "y \<in> {0..<height}"
    then have y: "0 \<le> y" "y < height" by simp_all
    show "y \<in> (\<Union>d \<in> set (threadData height n). rows d)"
    proof (cases "int (n - 1) * s \<le> y")
      case True
      then have "y \<in> rows (slice height n (n - 1))" using y by (simp add: rows_eq)
      moreover have "n - 1 < n" using assms by simp
      ultimately show ?thesis unfolding threadData_def by (auto intro!: bexI [of _ "n - 1"])
    next
      case False
      with y s0 have spos: "0 < s" by (cases "s = 0") auto
      define i where "i = nat (y div s)"
      have yi: "int i = y div s" using y spos by (simp add: i_def pos_imp_zdiv_nonneg_iff)
      have lo: "int i * s \<le> y"
      proof -
        have "s * (y div s) + y mod s = y" by simp
        moreover have "0 \<le> y mod s" using spos by simp
        ultimately have "s * (y div s) \<le> y" by linarith
        then show ?thesis by (simp add: yi mult.commute)
      qed
      have hi: "y < (int i + 1) * s"
      proof -
        have "s * (y div s) + y mod s = y" by simp
        moreover have "y mod s < s" using spos by simp
        ultimately have "y < s * (y div s) + s" by linarith
        then show ?thesis by (simp add: yi algebra_simps)
      qed
      have "i < n - 1"
      proof (rule ccontr)
        assume "\<not> i < n - 1"
        then have "int (n - 1) * s \<le> int i * s" by (intro le_mono) simp
        with lo False show False by simp
      qed
      then have "i \<noteq> n - 1" "i < n" by simp_all
      with lo hi have "y \<in> rows (slice height n i)" by (simp add: rows_eq)
      with \<open>i < n\<close> show ?thesis unfolding threadData_def by (auto intro!: bexI [of _ i])
    qed
  qed
  have "rows (threadData height n ! i) \<inter> rows (threadData height n ! j) = {}"
    if "i < n" "j < n" "i \<noteq> j" for i j
  proof (cases "i < j")
    case True
    with that disj [of i j] show ?thesis by (simp add: threadData_def)
  next
    case False
    with that have "j < i" by simp
    with that disj [of j i] show ?thesis by (simp add: threadData_def Int_commute)
  qed
  with cover show ?thesis by blast
qed

theorem slices_partition_rows_witness:
  "(0::int) < 800 \<and> (0::nat) < 16 \<and>
   (\<Union>d \<in> set (threadData 800 16). rows d) = {0..<800} \<and>
   rows (threadData 800 16 ! 3) \<inter> rows (threadData 800 16 ! 15) = {}"
proof -
  have h: "(0::int) < 800" "(0::nat) < 16" by simp_all
  have "(3::nat) < 16" "(15::nat) < 16" "(3::nat) \<noteq> 15" by simp_all
  with slices_partition_rows [OF h] h show ?thesis by blast
qed

section \<open>Rounding\<close>

lemma pw2_split: "i \<le> j \<Longrightarrow> (2::real) powi j = 2 ^ nat (j - i) * 2 powi i"
proof -
  assume "i \<le> j"
  then have "(2::real) powi j = 2 powi (int (nat (j - i)) + i)" by simp
  also have "\<dots> = 2 powi int (nat (j - i)) * 2 powi i" by (subst power_int_add) simp_all
  also have "\<dots> = 2 ^ nat (j - i) * 2 powi i" by (simp only: power_int_of_nat)
  finally show ?thesis .
qed

lemma dy_le:
  assumes "i \<le> j"
  shows "(of_int a * (2::real) powi i \<le> of_int b * 2 powi j) = (a \<le> b * 2 ^ nat (j - i))"
proof -
  have p: "(0::real) < 2 powi i" by simp
  have "(of_int a * (2::real) powi i \<le> of_int b * 2 powi j)
      = (of_int a * (2::real) powi i \<le> (of_int b * 2 ^ nat (j - i)) * 2 powi i)"
    by (simp add: pw2_split [OF assms] mult.assoc)
  also have "\<dots> = ((of_int a :: real) \<le> of_int b * 2 ^ nat (j - i))"
    using p by (simp only: mult_le_cancel_right_pos)
  also have "\<dots> = ((of_int a :: real) \<le> of_int (b * 2 ^ nat (j - i)))" by simp
  also have "\<dots> = (a \<le> b * 2 ^ nat (j - i))" by (simp only: of_int_le_iff)
  finally show ?thesis .
qed

lemma dy_ge:
  assumes "i \<le> j"
  shows "(of_int b * (2::real) powi j \<le> of_int a * 2 powi i) = (b * 2 ^ nat (j - i) \<le> a)"
proof -
  have p: "(0::real) < 2 powi i" by simp
  have "(of_int b * (2::real) powi j \<le> of_int a * 2 powi i)
      = ((of_int b * 2 ^ nat (j - i)) * 2 powi i \<le> of_int a * (2::real) powi i)"
    by (simp add: pw2_split [OF assms] mult.assoc)
  also have "\<dots> = (of_int b * 2 ^ nat (j - i) \<le> (of_int a :: real))"
    using p by (simp only: mult_le_cancel_right_pos)
  also have "\<dots> = (of_int (b * 2 ^ nat (j - i)) \<le> (of_int a :: real))" by simp
  also have "\<dots> = (b * 2 ^ nat (j - i) \<le> a)" by (simp only: of_int_le_iff)
  finally show ?thesis .
qed

lemma dy_eq:
  assumes "i \<le> j"
  shows "of_int (b * 2 ^ nat (j - i)) * (2::real) powi i = of_int b * 2 powi j"
  by (simp add: pw2_split [OF assms] mult.assoc)

lemma rne_ge: "J * 2 ^ k \<le> M \<Longrightarrow> J \<le> rne M k"
proof -
  assume a: "J * 2 ^ k \<le> M"
  have "J = (J * 2 ^ k) div 2 ^ k" by simp
  also have "\<dots> \<le> M div 2 ^ k" using a by (intro zdiv_mono1) simp_all
  finally have "J \<le> M div 2 ^ k" .
  then show ?thesis by (simp add: rne_def Let_def)
qed

lemma rne_le: "M \<le> J * 2 ^ k \<Longrightarrow> rne M k \<le> J"
proof -
  assume a: "M \<le> J * 2 ^ k"
  have d: "2 ^ k * (M div 2 ^ k) + M mod 2 ^ k = M" by simp
  have q: "M div 2 ^ k \<le> J"
  proof -
    have "M div 2 ^ k \<le> (J * 2 ^ k) div 2 ^ k" using a by (intro zdiv_mono1) simp_all
    then show ?thesis by simp
  qed
  show ?thesis
  proof (cases "M mod 2 ^ k = 0")
    case True
    then show ?thesis using q by (simp add: rne_def Let_def)
  next
    case False
    have "0 \<le> M mod (2::int) ^ k" by simp
    with False have "0 < M mod 2 ^ k" by linarith
    with d a have "2 ^ k * (M div 2 ^ k) < J * 2 ^ k" by linarith
    then have "(M div 2 ^ k) * 2 ^ k < J * 2 ^ k" by (simp add: mult.commute)
    then have "M div 2 ^ k < J" by (simp add: mult_less_cancel_right)
    then show ?thesis by (simp add: rne_def Let_def)
  qed
qed


lemma rne_err: "2 * \<bar>rne M k * 2 ^ k - M\<bar> \<le> 2 ^ k"
proof -
  define q where "q = M div 2 ^ k"
  define r where "r = M mod 2 ^ k"
  have d: "M = q * 2 ^ k + r" unfolding q_def r_def by (rule div_mult_mod_eq [symmetric])
  have r: "0 \<le> r" "r < 2 ^ k" by (simp_all add: r_def)
  have "rne M k = (if 2 * r < 2 ^ k then q else if 2 * r > 2 ^ k then q + 1
     else if even q then q else q + 1)"
    by (simp add: rne_def Let_def q_def r_def)
  then consider "rne M k = q" "2 * r \<le> 2 ^ k" | "rne M k = q + 1" "2 ^ k \<le> 2 * r"
    by (auto split: if_splits)
  then show ?thesis
  proof cases
    case 1
    then show ?thesis using r by (simp add: d)
  next
    case 2
    have "(q + 1) * 2 ^ k - (q * 2 ^ k + r) = 2 ^ k - r" by (simp add: algebra_simps)
    with 2 r show ?thesis by (simp add: d)
  qed
qed

lemma fround_core:
  assumes M: "0 < M"
  shows "\<exists>m e. fround s M E = (if 971 < e then Infinity s else Finite s m e) \<and>
           0 \<le> m \<and> m < 2 ^ 53 \<and> - 1074 \<le> e \<and> (e = - 1074 \<or> 2 ^ 52 \<le> m) \<and>
           (\<forall>n c. 0 \<le> n \<and> n < 2 ^ 53 \<and> - 1074 \<le> c \<longrightarrow>
              (of_int M * (2::real) powi E \<le> of_int n * 2 powi c \<longrightarrow>
                 of_int m * (2::real) powi e \<le> of_int n * 2 powi c) \<and>
              (of_int n * (2::real) powi c \<le> of_int M * 2 powi E \<longrightarrow>
                 of_int n * (2::real) powi c \<le> of_int m * 2 powi e)) \<and>
           (\<exists>u. - 1074 \<le> u \<and>
              2 * \<bar>of_int m * (2::real) powi e - of_int M * 2 powi E\<bar> \<le> 2 powi u \<and>
              (u = - 1074 \<or> 2 ^ 52 * (2::real) powi u \<le> of_int M * 2 powi E))"
proof -
  define L where "L = bitlen M"
  define e0 where "e0 = max (E + L - 53) (- 1074)"
  have L1: "1 \<le> L" using M bitlen_eq_zero_iff [of M] bitlen_nonneg [of M] by (simp add: L_def)
  have Mlo: "2 ^ nat (L - 1) \<le> M" and Mhi: "M < 2 ^ nat L"
    using bitlen_bounds [OF M] by (simp_all add: L_def)
  have e0_ge: "E + L - 53 \<le> e0" "- 1074 \<le> e0" by (simp_all add: e0_def)
  have e0_cases: "e0 = - 1074 \<or> (e0 = E + L - 53 \<and> - 1074 < e0)" by (auto simp: e0_def)
  show ?thesis
  proof (cases "e0 \<le> E")
    case True
    define m where "m = M * 2 ^ nat (E - e0)"
    have m0: "0 \<le> m" using M by (simp add: m_def)
    have "nat L + nat (E - e0) \<le> 53" using e0_ge True L1 by simp
    then have "(2::int) ^ (nat L + nat (E - e0)) \<le> 2 ^ 53" by (intro power_increasing) simp_all
    moreover have "m < 2 ^ nat L * 2 ^ nat (E - e0)"
      unfolding m_def using Mhi by (intro mult_strict_right_mono) simp_all
    ultimately have m53: "m < 2 ^ 53" by (simp add: power_add)
    have canon: "e0 = - 1074 \<or> 2 ^ 52 \<le> m"
    proof (cases "e0 = - 1074")
      case False
      with e0_cases have e: "e0 = E + L - 53" by simp
      have "nat (L - 1) + nat (E - e0) = 52" using e L1 \<open>e0 \<le> E\<close> by linarith
      then have "(2::int) ^ 52 = 2 ^ nat (L - 1) * 2 ^ nat (E - e0)"
        by (simp add: power_add [symmetric])
      also have "\<dots> \<le> m" unfolding m_def using Mlo by (intro mult_right_mono) simp_all
      finally show ?thesis by simp
    qed simp
    have val: "of_int m * (2::real) powi e0 = of_int M * 2 powi E"
      unfolding m_def by (rule dy_eq [OF True])
    have fr: "fround s M E = (if 971 < e0 then Infinity s else Finite s m e0)"
      using M True m53 by (simp add: fround_def Let_def L_def [symmetric] e0_def [symmetric] m_def)
    show ?thesis
    proof (rule exI [of _ m], rule exI [of _ e0])
      from fr m0 m53 e0_ge(2) canon val
      show "fround s M E = (if 971 < e0 then Infinity s else Finite s m e0) \<and>
           0 \<le> m \<and> m < 2 ^ 53 \<and> - 1074 \<le> e0 \<and> (e0 = - 1074 \<or> 2 ^ 52 \<le> m) \<and>
           (\<forall>n c. 0 \<le> n \<and> n < 2 ^ 53 \<and> - 1074 \<le> c \<longrightarrow>
              (of_int M * (2::real) powi E \<le> of_int n * 2 powi c \<longrightarrow>
                 of_int m * (2::real) powi e0 \<le> of_int n * 2 powi c) \<and>
              (of_int n * (2::real) powi c \<le> of_int M * 2 powi E \<longrightarrow>
                 of_int n * (2::real) powi c \<le> of_int m * 2 powi e0)) \<and>
           (\<exists>u. - 1074 \<le> u \<and>
              2 * \<bar>of_int m * (2::real) powi e0 - of_int M * 2 powi E\<bar> \<le> 2 powi u \<and>
              (u = - 1074 \<or> 2 ^ 52 * (2::real) powi u \<le> of_int M * 2 powi E))"
        by (simp add: exI [of _ "- 1074"])
    qed
  next
    case False
    define k where "k = nat (e0 - E)"
    define m where "m = rne M k"
    have k: "int k = e0 - E" "0 < k" using False by (simp_all add: k_def)
    have Lk: "nat L \<le> 53 + k" using e0_ge(1) k by linarith
    have m0: "0 \<le> m" unfolding m_def using M by (intro rne_ge) simp
    have m53: "m \<le> 2 ^ 53"
    proof -
      have "(2::int) ^ nat L \<le> 2 ^ (53 + k)" using Lk by (intro power_increasing) simp_all
      with Mhi have "M \<le> 2 ^ 53 * 2 ^ k" by (simp add: power_add)
      then show ?thesis unfolding m_def by (rule rne_le)
    qed
    have normal: "2 ^ 52 \<le> m \<and> of_int (2 ^ 52) * (2::real) powi e0 \<le> of_int M * 2 powi E"
      if "- 1074 < e0"
    proof -
      from that e0_cases have e: "e0 = E + L - 53" by simp
      have "nat (L - 1) = 52 + k" using e k L1 by linarith
      with Mlo have lo: "2 ^ 52 * 2 ^ k \<le> M" by (simp add: power_add)
      then have "2 ^ 52 \<le> m" unfolding m_def by (rule rne_ge)
      moreover have "of_int (2 ^ 52) * (2::real) powi e0 \<le> of_int M * 2 powi E"
        using lo dy_ge [of E e0 "2 ^ 52" M] False by (simp add: k_def)
      ultimately show ?thesis by simp
    qed
    have between: "(of_int M * (2::real) powi E \<le> of_int n * 2 powi c \<longrightarrow>
                 of_int m * (2::real) powi e0 \<le> of_int n * 2 powi c) \<and>
              (of_int n * (2::real) powi c \<le> of_int M * 2 powi E \<longrightarrow>
                 of_int n * (2::real) powi c \<le> of_int m * 2 powi e0)"
      if n: "0 \<le> n" "n < 2 ^ 53" and c: "- 1074 \<le> c" for n c
    proof (cases "e0 \<le> c")
      case True
      define J where "J = n * 2 ^ nat (c - e0)"
      have Ec: "E \<le> c" using True False by simp
      have "nat (c - E) = nat (c - e0) + k" using True k by linarith
      then have Jk: "n * 2 ^ nat (c - E) = J * 2 ^ k" by (simp add: J_def power_add)
      have Jv: "of_int J * (2::real) powi e0 = of_int n * 2 powi c"
        unfolding J_def by (rule dy_eq [OF True])
      have up: "of_int m * (2::real) powi e0 \<le> of_int n * 2 powi c"
        if "of_int M * (2::real) powi E \<le> of_int n * 2 powi c"
      proof -
        from that have "M \<le> J * 2 ^ k" by (simp add: dy_le [OF Ec] Jk)
        then have "m \<le> J" unfolding m_def by (rule rne_le)
        then have "of_int m * (2::real) powi e0 \<le> of_int J * 2 powi e0"
          by (intro mult_right_mono) simp_all
        then show ?thesis by (simp add: Jv)
      qed
      have down: "of_int n * (2::real) powi c \<le> of_int m * 2 powi e0"
        if "of_int n * (2::real) powi c \<le> of_int M * 2 powi E"
      proof -
        from that have "J * 2 ^ k \<le> M" by (simp add: dy_ge [OF Ec] Jk)
        then have "J \<le> m" unfolding m_def by (rule rne_ge)
        then have "of_int J * (2::real) powi e0 \<le> of_int m * 2 powi e0"
          by (intro mult_right_mono) simp_all
        then show ?thesis by (simp add: Jv)
      qed
      from up down show ?thesis by blast
    next
      case False
      then have ce: "c + 1 \<le> e0" and norm: "- 1074 < e0" using c by simp_all
      have "of_int n * (2::real) powi c < 2 ^ 53 * 2 powi c"
        using n by (intro mult_strict_right_mono) simp_all
      also have "\<dots> = of_int (2 ^ 52) * 2 powi (c + 1)"
        by (simp add: power_int_add)
      also have "\<dots> \<le> of_int (2 ^ 52) * 2 powi e0"
        using ce by (intro mult_left_mono power_int_increasing) simp_all
      finally have small: "of_int n * (2::real) powi c < of_int (2 ^ 52) * 2 powi e0" .
      have "of_int (2 ^ 52) * (2::real) powi e0 \<le> of_int m * 2 powi e0"
        using normal [OF norm] by (intro mult_right_mono) simp_all
      with small normal [OF norm] show ?thesis by linarith
    qed
    have err: "\<exists>u. - 1074 \<le> u \<and>
              2 * \<bar>of_int m * (2::real) powi e0 - of_int M * 2 powi E\<bar> \<le> 2 powi u \<and>
              (u = - 1074 \<or> 2 ^ 52 * (2::real) powi u \<le> of_int M * 2 powi E)"
    proof (intro exI [of _ e0] conjI)
      show "- 1074 \<le> e0" by (rule e0_ge)
      have E: "E \<le> e0" using False by simp
      have p: "(2::real) powi e0 = 2 ^ k * 2 powi E" using pw2_split [OF E] by (simp add: k_def)
      have "of_int m * (2::real) powi e0 - of_int M * 2 powi E
          = (of_int m * 2 ^ k - of_int M) * 2 powi E"
        by (simp add: p algebra_simps)
      then have "2 * \<bar>of_int m * (2::real) powi e0 - of_int M * 2 powi E\<bar>
          = of_int (2 * \<bar>m * 2 ^ k - M\<bar>) * 2 powi E"
        by (simp add: abs_mult)
      also have "\<dots> \<le> of_int (2 ^ k) * 2 powi E"
        unfolding m_def by (intro mult_right_mono, subst of_int_le_iff, rule rne_err) simp
      also have "\<dots> = 2 powi e0" by (simp add: p)
      finally show "2 * \<bar>of_int m * (2::real) powi e0 - of_int M * 2 powi E\<bar> \<le> 2 powi e0" .
      show "e0 = - 1074 \<or> 2 ^ 52 * (2::real) powi e0 \<le> of_int M * 2 powi E"
        using normal e0_ge(2) by (cases "e0 = - 1074") auto
    qed
    show ?thesis
    proof (cases "m = 2 ^ 53")
      case True
      have fr: "fround s M E = (if 971 < e0 + 1 then Infinity s else Finite s (2 ^ 52) (e0 + 1))"
        using M False True
        by (simp add: fround_def Let_def L_def [symmetric] e0_def [symmetric] k_def [symmetric]
            m_def [symmetric])
      have val: "of_int (2 ^ 52) * (2::real) powi (e0 + 1) = of_int m * 2 powi e0"
        by (simp add: True power_int_add)
      show ?thesis
      proof (rule exI [of _ "2 ^ 52"], rule exI [of _ "e0 + 1"], intro conjI allI impI)
        show "fround s M E = (if 971 < e0 + 1 then Infinity s else Finite s (2 ^ 52) (e0 + 1))"
          by (rule fr)
        show "(0::int) \<le> 2 ^ 52" "(2::int) ^ 52 < 2 ^ 53" by simp_all
        show "- 1074 \<le> e0 + 1" using e0_ge(2) by simp
        show "e0 + 1 = - 1074 \<or> (2::int) ^ 52 \<le> 2 ^ 52" by simp
      next
        fix n c
        assume a: "0 \<le> n \<and> n < 2 ^ 53 \<and> - 1074 \<le> c"
          and b: "of_int M * (2::real) powi E \<le> of_int n * 2 powi c"
        with between [of n c] show "of_int (2 ^ 52) * (2::real) powi (e0 + 1) \<le> of_int n * 2 powi c"
          unfolding val by blast
      next
        fix n c
        assume a: "0 \<le> n \<and> n < 2 ^ 53 \<and> - 1074 \<le> c"
          and b: "of_int n * (2::real) powi c \<le> of_int M * 2 powi E"
        with between [of n c] show "of_int n * (2::real) powi c \<le> of_int (2 ^ 52) * 2 powi (e0 + 1)"
          unfolding val by blast
      next
        show "\<exists>u. - 1074 \<le> u \<and>
              2 * \<bar>of_int (2 ^ 52) * (2::real) powi (e0 + 1) - of_int M * 2 powi E\<bar> \<le> 2 powi u \<and>
              (u = - 1074 \<or> 2 ^ 52 * (2::real) powi u \<le> of_int M * 2 powi E)"
          unfolding val by (rule err)
      qed
    next
      case ne: False
      have fr: "fround s M E = (if 971 < e0 then Infinity s else Finite s m e0)"
        using M False ne
        by (simp add: fround_def Let_def L_def [symmetric] e0_def [symmetric] k_def [symmetric]
            m_def [symmetric])
      have canon: "e0 = - 1074 \<or> 2 ^ 52 \<le> m" using normal e0_ge(2) by (cases "e0 = - 1074") auto
      from ne m53 have m53': "m < 2 ^ 53" by simp
      show ?thesis
      proof (rule exI [of _ m], rule exI [of _ e0], intro conjI allI impI)
        show "fround s M E = (if 971 < e0 then Infinity s else Finite s m e0)" by (rule fr)
        show "0 \<le> m" "m < 2 ^ 53" "- 1074 \<le> e0" "e0 = - 1074 \<or> 2 ^ 52 \<le> m"
          by (fact m0 m53' e0_ge(2) canon)+
      next
        fix n c
        assume a: "0 \<le> n \<and> n < 2 ^ 53 \<and> - 1074 \<le> c"
          and b: "of_int M * (2::real) powi E \<le> of_int n * 2 powi c"
        with between [of n c] show "of_int m * (2::real) powi e0 \<le> of_int n * 2 powi c"
          by blast
      next
        fix n c
        assume a: "0 \<le> n \<and> n < 2 ^ 53 \<and> - 1074 \<le> c"
          and b: "of_int n * (2::real) powi c \<le> of_int M * 2 powi E"
        with between [of n c] show "of_int n * (2::real) powi c \<le> of_int m * 2 powi e0"
          by blast
      next
        show "\<exists>u. - 1074 \<le> u \<and>
              2 * \<bar>of_int m * (2::real) powi e0 - of_int M * 2 powi E\<bar> \<le> 2 powi u \<and>
              (u = - 1074 \<or> 2 ^ 52 * (2::real) powi u \<le> of_int M * 2 powi E)"
          by (rule err)
      qed
    qed
  qed
qed


lemma fround_magnitude:
  assumes M: "0 < M"
  obtains m e where
    "fround s M E = (if 971 < e then Infinity s else Finite s m e)"
    "valid (fround s M E)"
    "\<And>n c. 0 < n \<Longrightarrow> n < 2 ^ 53 \<Longrightarrow> - 1074 \<le> c \<Longrightarrow> c \<le> 971 \<Longrightarrow>
       of_int M * (2::real) powi E \<le> of_int n * 2 powi c \<Longrightarrow>
       e \<le> 971 \<and> of_int m * (2::real) powi e \<le> of_int n * 2 powi c"
    "\<And>n c. 0 < n \<Longrightarrow> n < 2 ^ 53 \<Longrightarrow> - 1074 \<le> c \<Longrightarrow>
       of_int n * (2::real) powi c \<le> of_int M * 2 powi E \<Longrightarrow>
       of_int n * (2::real) powi c \<le> of_int m * 2 powi e"
    "0 \<le> m"
    "\<bar>of_int m * (2::real) powi e - of_int M * 2 powi E\<bar>
       \<le> (of_int M * 2 powi E) / 2 ^ 53 + 2 powi (- 1075)"
proof -
  from fround_core [OF M, of s E] obtain m e u where
    fr: "fround s M E = (if 971 < e then Infinity s else Finite s m e)"
    and m: "0 \<le> m" "m < 2 ^ 53" and e: "- 1074 \<le> e" and canon: "e = - 1074 \<or> 2 ^ 52 \<le> m"
    and btw: "\<And>n c. 0 \<le> n \<and> n < 2 ^ 53 \<and> - 1074 \<le> c \<Longrightarrow>
              (of_int M * (2::real) powi E \<le> of_int n * 2 powi c \<longrightarrow>
                 of_int m * (2::real) powi e \<le> of_int n * 2 powi c) \<and>
              (of_int n * (2::real) powi c \<le> of_int M * 2 powi E \<longrightarrow>
                 of_int n * (2::real) powi c \<le> of_int m * 2 powi e)"
    and u: "- 1074 \<le> u" "2 * \<bar>of_int m * (2::real) powi e - of_int M * 2 powi E\<bar> \<le> 2 powi u"
      "u = - 1074 \<or> 2 ^ 52 * (2::real) powi u \<le> of_int M * 2 powi E"
    by blast
  have x0: "0 < of_int M * (2::real) powi E" using M by simp
  have v: "valid (fround s M E)" using fr m e canon by simp
  have up: "e \<le> 971 \<and> of_int m * (2::real) powi e \<le> of_int n * 2 powi c"
    if n: "0 < n" "n < 2 ^ 53" and c: "- 1074 \<le> c" "c \<le> 971"
      and le: "of_int M * (2::real) powi E \<le> of_int n * 2 powi c" for n c
  proof -
    from btw [of n c] n c le have b: "of_int m * (2::real) powi e \<le> of_int n * 2 powi c" by simp
    have "e \<le> 971"
    proof (rule ccontr)
      assume "\<not> e \<le> 971"
      then have e972: "972 \<le> e" by simp
      with canon have m52: "2 ^ 52 \<le> m" by auto
      have "(of_int ((2::int) ^ 52) :: real) \<le> of_int m" using m52 by (simp only: of_int_le_iff)
      then have m52r: "(2::real) ^ 52 \<le> of_int m" by simp
      have "of_int n * (2::real) powi c < 2 ^ 53 * 2 powi c"
        using n by (intro mult_strict_right_mono) simp_all
      also have "\<dots> \<le> 2 ^ 53 * 2 powi 971"
        using c by (intro mult_left_mono power_int_increasing) simp_all
      also have "\<dots> = 2 ^ 52 * 2 powi 972" by (simp add: power_int_add [of 2 971 1, simplified])
      also have "\<dots> \<le> 2 ^ 52 * 2 powi e"
        using e972 by (intro mult_left_mono power_int_increasing) simp_all
      also have "\<dots> \<le> of_int m * 2 powi e"
        using m52r by (intro mult_right_mono) simp_all
      finally show False using b by simp
    qed
    with b show ?thesis by simp
  qed
  have down: "of_int n * (2::real) powi c \<le> of_int m * 2 powi e"
    if "0 < n" "n < 2 ^ 53" "- 1074 \<le> c" "of_int n * (2::real) powi c \<le> of_int M * 2 powi E" for n c
    using btw [of n c] that by simp
  have err: "\<bar>of_int m * (2::real) powi e - of_int M * 2 powi E\<bar>
       \<le> (of_int M * 2 powi E) / 2 ^ 53 + 2 powi (- 1075)"
  proof -
    have half: "(2::real) powi u = 2 * 2 powi (u - 1)"
      using power_int_add [of "2::real" "u - 1" 1] by simp
    from u(3) show ?thesis
    proof
      assume "u = - 1074"
      with u(2) half have "\<bar>of_int m * (2::real) powi e - of_int M * 2 powi E\<bar> \<le> 2 powi (- 1075)"
        by simp
      with x0 show ?thesis by (smt (verit) divide_nonneg_nonneg zero_le_power)
    next
      assume a: "2 ^ 52 * (2::real) powi u \<le> of_int M * 2 powi E"
      have "\<bar>of_int m * (2::real) powi e - of_int M * 2 powi E\<bar> \<le> 2 powi u / 2"
        using u(2) by simp
      also have "\<dots> = (2 ^ 52 * 2 powi u) / 2 ^ 53" by simp
      also have "\<dots> \<le> (of_int M * 2 powi E) / 2 ^ 53"
        using a by (intro divide_right_mono) simp_all
      finally show ?thesis by (smt (verit) zero_less_power_int)
    qed
  qed
  from that [OF fr v up down m(1) err] show ?thesis by blast
qed


lemma rounds_fround:
  assumes "0 \<le> M"
  shows "rounds (of_int (signed s M) * 2 powi E) (fround s M E)"
proof (cases "M = 0")
  case True
  then show ?thesis by (simp add: rounds_def fround_def signed_def)
next
  case False
  with assms have M: "0 < M" by simp
  define x where "x = of_int M * (2::real) powi E"
  have x0: "0 < x" using M by (simp add: x_def)
  obtain m e where
    fr: "fround s M E = (if 971 < e then Infinity s else Finite s m e)"
    and v: "valid (fround s M E)"
    and up0: "\<And>n c. 0 < n \<Longrightarrow> n < 2 ^ 53 \<Longrightarrow> - 1074 \<le> c \<Longrightarrow> c \<le> 971 \<Longrightarrow>
       of_int M * (2::real) powi E \<le> of_int n * 2 powi c \<Longrightarrow>
       e \<le> 971 \<and> of_int m * (2::real) powi e \<le> of_int n * 2 powi c"
    and down0: "\<And>n c. 0 < n \<Longrightarrow> n < 2 ^ 53 \<Longrightarrow> - 1074 \<le> c \<Longrightarrow>
       of_int n * (2::real) powi c \<le> of_int M * 2 powi E \<Longrightarrow>
       of_int n * (2::real) powi c \<le> of_int m * 2 powi e"
    and m0: "0 \<le> m"
    and err0: "\<bar>of_int m * (2::real) powi e - of_int M * 2 powi E\<bar>
       \<le> (of_int M * 2 powi E) / 2 ^ 53 + 2 powi (- 1075)"
    by (rule fround_magnitude [OF M, of s E], rule that)
  note up = up0 [folded x_def] and down = down0 [folded x_def] and err = err0 [folded x_def]
  define y where "y = of_int m * (2::real) powi e"
  have y0: "0 \<le> y" using m0 by (simp add: y_def)
  have err': "\<bar>y - x\<bar> \<le> \<bar>x\<bar> / 2 ^ 52 + 2 powi (- 1075)"
  proof -
    have "x / 2 ^ 53 \<le> x / 2 ^ 52" using x0 by (intro divide_left_mono) simp_all
    with err x0 show ?thesis by (simp add: y_def)
  qed
  have hi: "e \<le> 971 \<and> y \<le> r" if "representable r" "x \<le> r" for r
  proof -
    from that(1) obtain n c where n: "\<bar>n\<bar> < 2 ^ 53" and c: "- 1074 \<le> c" "c \<le> 971"
      and r: "r = of_int n * 2 powi c" by (auto simp: representable_def)
    from x0 that(2) have "0 < r" by simp
    then have "0 < (of_int n :: real)" unfolding r by (rule zero_less_mult_pos2) simp
    then have "0 < n" by simp
    with up [of n c] n c that(2) show ?thesis by (simp add: r y_def)
  qed
  have lo: "r \<le> y" if "representable r" "r \<le> x" for r
  proof -
    from that(1) obtain n c where n: "\<bar>n\<bar> < 2 ^ 53" and c: "- 1074 \<le> c" "c \<le> 971"
      and r: "r = of_int n * 2 powi c" by (auto simp: representable_def)
    show ?thesis
    proof (cases "0 < n")
      case True
      with down [of n c] n c that(2) show ?thesis by (simp add: r y_def)
    next
      case False
      then have "r \<le> 0" unfolding r by (intro mult_nonpos_nonneg) simp_all
      with y0 show ?thesis by simp
    qed
  qed
  have neg: "representable (- r)" if "representable r" for r
  proof -
    from that obtain n c where "\<bar>n\<bar> < 2 ^ 53" "- 1074 \<le> c" "c \<le> 971" "r = of_int n * 2 powi c"
      by (auto simp: representable_def)
    then have "\<bar>- n\<bar> < 2 ^ 53 \<and> - 1074 \<le> c \<and> c \<le> 971 \<and> - r = of_int (- n) * 2 powi c"
      by simp
    then show ?thesis unfolding representable_def by blast
  qed
  show ?thesis
  proof (cases s)
    case False
    have sx: "of_int (signed s M) * 2 powi E = x" using False by (simp add: signed_def x_def)
    have dv: "dval (Finite s m e) = y" using False by (simp add: signed_def y_def)
    show ?thesis
      unfolding rounds_def sx
    proof (intro conjI allI impI)
      show "valid (fround s M E)" by (rule v)
      show "fround s M E \<noteq> NaN" by (simp add: fr)
    next
      fix r assume a: "representable r \<and> x \<le> r"
      with hi [of r] have h: "e \<le> 971" "y \<le> r" by simp_all
      then show "fround s M E \<noteq> Infinity False" by (simp add: fr)
      show "dval (fround s M E) \<le> r" using h dv by (simp add: fr)
    next
      fix r assume a: "representable r \<and> r \<le> x"
      show "fround s M E \<noteq> Infinity True" using False by (subst fr) simp
      assume "is_finite (fround s M E)"
      then have "fround s M E = Finite s m e" by (simp add: fr split: if_splits)
      with lo [of r] a dv show "r \<le> dval (fround s M E)" by simp
    next
      assume "is_finite (fround s M E)"
      then have "fround s M E = Finite s m e" by (simp add: fr split: if_splits)
      with err' dv show "\<bar>dval (fround s M E) - x\<bar> \<le> \<bar>x\<bar> / 2 ^ 52 + 2 powi (- 1075)" by simp
    qed
  next
    case True
    have sx: "of_int (signed s M) * 2 powi E = - x" using True by (simp add: signed_def x_def)
    have dv: "dval (Finite s m e) = - y" using True by (simp add: signed_def y_def)
    show ?thesis
      unfolding rounds_def sx
    proof (intro conjI allI impI)
      show "valid (fround s M E)" by (rule v)
      show "fround s M E \<noteq> NaN" by (simp add: fr)
    next
      fix r assume a: "representable r \<and> - x \<le> r"
      show "fround s M E \<noteq> Infinity False" using True by (subst fr) simp
      assume "is_finite (fround s M E)"
      then have "fround s M E = Finite s m e" by (simp add: fr split: if_splits)
      moreover from a lo [of "- r"] neg [of r] have "- r \<le> y" by simp
      ultimately show "dval (fround s M E) \<le> r" using dv by simp
    next
      fix r assume a: "representable r \<and> r \<le> - x"
      with hi [of "- r"] neg [of r] have h: "e \<le> 971" "y \<le> - r" by simp_all
      then show "fround s M E \<noteq> Infinity True" by (simp add: fr)
      show "r \<le> dval (fround s M E)" using h dv by (simp add: fr)
    next
      assume "is_finite (fround s M E)"
      then have "fround s M E = Finite s m e" by (simp add: fr split: if_splits)
      moreover have "\<bar>- y - - x\<bar> = \<bar>y - x\<bar>" by simp
      ultimately show "\<bar>dval (fround s M E) - - x\<bar> \<le> \<bar>- x\<bar> / 2 ^ 52 + 2 powi (- 1075)"
        using err' dv by simp
    qed
  qed
qed


lemma is_finite_iff: "is_finite d = (d \<noteq> NaN \<and> d \<noteq> Infinity True \<and> d \<noteq> Infinity False)"
  by (cases d) auto

lemma representable_int: "\<bar>n\<bar> < 2 ^ 53 \<Longrightarrow> representable (of_int n)"
  unfolding representable_def by (rule exI [of _ n], rule exI [of _ 0]) simp

lemma representable_dyadic:
  "\<bar>n\<bar> < 2 ^ 53 \<Longrightarrow> k \<le> 1074 \<Longrightarrow> representable (of_int n / 2 ^ k)"
  unfolding representable_def
  by (rule exI [of _ n], rule exI [of _ "- int k"])
    (simp add: power_int_minus field_simps)

lemma rounds_between:
  assumes "rounds x d" "representable lo" "representable hi" "lo \<le> x" "x \<le> hi"
  shows "is_finite d \<and> valid d \<and> lo \<le> dval d \<and> dval d \<le> hi"
proof -
  from assms have "d \<noteq> NaN" "d \<noteq> Infinity False" "d \<noteq> Infinity True" "valid d"
    unfolding rounds_def by blast+
  then have f: "is_finite d" by (simp add: is_finite_iff)
  with assms show ?thesis unfolding rounds_def by blast
qed

lemma rounds_exact:
  assumes "rounds x d" "representable x"
  shows "is_finite d \<and> valid d \<and> dval d = x"
  using rounds_between [OF assms(1) assms(2) assms(2)] by simp

lemma signed_mult: "signed s (m * k) = signed s m * k"
  by (simp add: signed_def)

lemma signed_xor: "signed (s1 \<noteq> s2) (m1 * m2) = signed s1 m1 * signed s2 m2"
  by (simp add: signed_def)

lemma signed_abs: "signed (M < 0) \<bar>M\<bar> = M"
  by (simp add: signed_def)

lemma rounds_zero: "rounds 0 (Finite s 0 (- 1074))"
proof -
  have "signed s 0 = 0" by (simp add: signed_def)
  with rounds_fround [of 0 s 0] show ?thesis by (simp add: fround_def)
qed

lemma dmul_rounds:
  assumes "is_finite a" "is_finite b" "valid a" "valid b"
  shows "rounds (dval a * dval b) (dmul a b)"
proof -
  from assms(1) obtain s1 m1 e1 where a: "a = Finite s1 m1 e1" by (cases a) auto
  from assms(2) obtain s2 m2 e2 where b: "b = Finite s2 m2 e2" by (cases b) auto
  from assms(3,4) have "0 \<le> m1 * m2" by (simp add: a b)
  then have "rounds (of_int (signed (s1 \<noteq> s2) (m1 * m2)) * 2 powi (e1 + e2))
     (fround (s1 \<noteq> s2) (m1 * m2) (e1 + e2))"
    by (rule rounds_fround)
  moreover have "dval a * dval b = of_int (signed (s1 \<noteq> s2) (m1 * m2)) * 2 powi (e1 + e2)"
    by (simp add: a b signed_def power_int_add)
  moreover have "dmul a b = fround (s1 \<noteq> s2) (m1 * m2) (e1 + e2)" by (simp add: a b)
  ultimately show ?thesis by simp
qed

lemma dval_shift:
  "e \<le> e1 \<Longrightarrow> dval (Finite s m e1) = of_int (signed s (m * 2 ^ nat (e1 - e))) * 2 powi e"
  by (simp add: signed_mult dy_eq del: of_int_mult)

lemma dadd_rounds:
  assumes "is_finite a" "is_finite b" "valid a" "valid b"
  shows "rounds (dval a + dval b) (dadd a b)"
proof -
  from assms(1) obtain s1 m1 e1 where a: "a = Finite s1 m1 e1" by (cases a) auto
  from assms(2) obtain s2 m2 e2 where b: "b = Finite s2 m2 e2" by (cases b) auto
  define e where "e = min e1 e2"
  define M where "M = signed s1 (m1 * 2 ^ nat (e1 - e)) + signed s2 (m2 * 2 ^ nat (e2 - e))"
  have e: "e \<le> e1" "e \<le> e2" by (simp_all add: e_def)
  have x: "dval a + dval b = of_int M * 2 powi e"
    unfolding a b dval_shift [OF e(1)] dval_shift [OF e(2)] M_def by (simp add: algebra_simps)
  show ?thesis
  proof (cases "M = 0")
    case True
    then have "dadd a b = Finite (s1 \<and> s2) 0 (- 1074)"
      by (simp add: a b Let_def e_def M_def)
    moreover have "rounds 0 (Finite (s1 \<and> s2) 0 (- 1074))" by (rule rounds_zero)
    ultimately show ?thesis using True by (simp add: x)
  next
    case False
    then have "dadd a b = fround (M < 0) \<bar>M\<bar> e"
      by (simp add: a b Let_def e_def M_def)
    moreover have "rounds (of_int (signed (M < 0) \<bar>M\<bar>) * 2 powi e) (fround (M < 0) \<bar>M\<bar> e)"
      by (rule rounds_fround) simp
    ultimately show ?thesis by (simp add: x signed_abs)
  qed
qed

lemma dneg_props [simp]:
  "dval (dneg a) = - dval a" "is_finite (dneg a) = is_finite a" "valid (dneg a) = valid a"
  by (cases a; simp add: signed_def)+

lemma dsub_rounds:
  assumes "is_finite a" "is_finite b" "valid a" "valid b"
  shows "rounds (dval a - dval b) (dsub a b)"
  using dadd_rounds [of a "dneg b"] assms by (simp add: dsub_def)

lemma double_of_int_rounds: "rounds (of_int i) (double_of_int i)"
  using rounds_fround [of "\<bar>i\<bar>" "i < 0" 0] by (simp add: double_of_int_def signed_abs)

lemma double_of_int_exact:
  "\<bar>i\<bar> < 2 ^ 53 \<Longrightarrow>
   is_finite (double_of_int i) \<and> valid (double_of_int i) \<and> dval (double_of_int i) = of_int i"
  by (intro rounds_exact double_of_int_rounds representable_int)

lemma dge_dval:
  assumes "is_finite a" "is_finite b"
  shows "dge a b = (dval b \<le> dval a)"
proof -
  from assms(1) obtain s1 m1 e1 where a: "a = Finite s1 m1 e1" by (cases a) auto
  from assms(2) obtain s2 m2 e2 where b: "b = Finite s2 m2 e2" by (cases b) auto
  define e where "e = min e1 e2"
  have e: "e \<le> e1" "e \<le> e2" by (simp_all add: e_def)
  have p: "(0::real) < 2 powi e" by simp
  show ?thesis
    unfolding a b dval_shift [OF e(1)] dval_shift [OF e(2)]
    using p by (simp add: Let_def e_def [symmetric] mult_le_cancel_right_pos del: of_int_mult)
qed


lemma representable_neg: "representable r \<Longrightarrow> representable (- r)"
proof -
  assume "representable r"
  then obtain n c where "\<bar>n\<bar> < 2 ^ 53" "- 1074 \<le> c" "c \<le> 971" "r = of_int n * 2 powi c"
    by (auto simp: representable_def)
  then have "\<bar>- n\<bar> < 2 ^ 53 \<and> - 1074 \<le> c \<and> c \<le> 971 \<and> - r = of_int (- n) * 2 powi c"
    by simp
  then show ?thesis unfolding representable_def by blast
qed

lemma fround_error:
  assumes "0 \<le> M" "is_finite (fround s M E)"
  shows "\<bar>dval (fround s M E) - of_int (signed s M) * 2 powi E\<bar>
     \<le> \<bar>of_int (signed s M) * 2 powi E\<bar> / 2 ^ 53 + 2 powi (- 1075)"
proof (cases "M = 0")
  case True
  then show ?thesis by (simp add: fround_def signed_def)
next
  case False
  with assms have M: "0 < M" by simp
  obtain m e where
    fr: "fround s M E = (if 971 < e then Infinity s else Finite s m e)"
    and v: "valid (fround s M E)"
    and up0: "\<And>n c. 0 < n \<Longrightarrow> n < 2 ^ 53 \<Longrightarrow> - 1074 \<le> c \<Longrightarrow> c \<le> 971 \<Longrightarrow>
       of_int M * (2::real) powi E \<le> of_int n * 2 powi c \<Longrightarrow>
       e \<le> 971 \<and> of_int m * (2::real) powi e \<le> of_int n * 2 powi c"
    and down0: "\<And>n c. 0 < n \<Longrightarrow> n < 2 ^ 53 \<Longrightarrow> - 1074 \<le> c \<Longrightarrow>
       of_int n * (2::real) powi c \<le> of_int M * 2 powi E \<Longrightarrow>
       of_int n * (2::real) powi c \<le> of_int m * 2 powi e"
    and m0: "0 \<le> m"
    and err0: "\<bar>of_int m * (2::real) powi e - of_int M * 2 powi E\<bar>
       \<le> (of_int M * 2 powi E) / 2 ^ 53 + 2 powi (- 1075)"
    by (rule fround_magnitude [OF M, of s E], rule that)
  from assms(2) have d: "fround s M E = Finite s m e" by (simp add: fr split: if_splits)
  have x0: "0 \<le> of_int M * (2::real) powi E" using M by simp
  have ax: "\<bar>of_int (signed s M) * (2::real) powi E\<bar> = of_int M * 2 powi E"
    using M by (simp add: signed_def abs_mult)
  have "dval (Finite s m e) - of_int (signed s M) * 2 powi E
      = (if s then - 1 else 1) * (of_int m * (2::real) powi e - of_int M * 2 powi E)"
    by (simp add: signed_def)
  then have l: "\<bar>dval (Finite s m e) - of_int (signed s M) * 2 powi E\<bar>
      = \<bar>of_int m * (2::real) powi e - of_int M * 2 powi E\<bar>"
    by (simp only: abs_mult) simp
  show ?thesis unfolding d l ax by (rule err0)
qed

lemma sticky_between:
  assumes m2: "0 < m2" "m2 < 2 ^ 53" and n: "2 ^ 110 \<le> n" and r: "n mod m2 \<noteq> 0"
    and rho: "representable \<rho>"
  shows "(of_int n / of_int m2 * 2 powi (G + 1) \<le> \<rho> \<longrightarrow>
           of_int (2 * (n div m2) + 1) * 2 powi G \<le> \<rho>) \<and>
         (\<rho> \<le> of_int n / of_int m2 * 2 powi (G + 1) \<longrightarrow>
           \<rho> \<le> of_int (2 * (n div m2) + 1) * 2 powi G)"
proof -
  define q where "q = n div m2"
  define t where "t = n mod m2"
  have d: "n = q * m2 + t" unfolding q_def t_def by (rule div_mult_mod_eq [symmetric])
  have t: "0 < t" "t < m2"
  proof -
    have "0 \<le> n mod m2" using m2 by simp
    with r show "0 < t" by (simp add: t_def)
    show "t < m2" using m2 by (simp add: t_def)
  qed
  have q57: "2 ^ 57 \<le> q"
  proof -
    have "(2::int) ^ 57 * m2 \<le> 2 ^ 57 * 2 ^ 53" using m2 by (intro mult_left_mono) simp_all
    also have "\<dots> \<le> n" using n by simp
    finally have "(2 ^ 57 * m2) div m2 \<le> n div m2" by (intro zdiv_mono1 m2)
    with m2 show ?thesis by (simp add: q_def)
  qed
  define X where "X = of_int n / of_int m2 * (2::real) powi (G + 1)"
  define y where "y = of_int (2 * q + 1) * (2::real) powi G"
  have g: "(2::real) powi (G + 1) = 2 * 2 powi G" by (simp add: power_int_add)
  have Xq: "of_int q * (2::real) powi (G + 1) < X"
  proof -
    have "(of_int q :: real) < of_int n / of_int m2"
      using m2 t by (simp add: pos_less_divide_eq d flip: of_int_mult of_int_add)
    then show ?thesis unfolding X_def by (intro mult_strict_right_mono) simp_all
  qed
  have yq: "of_int q * (2::real) powi (G + 1) < y"
    unfolding y_def g by simp
  from rho obtain N c where N: "\<bar>N\<bar> < 2 ^ 53" and c: "- 1074 \<le> c" "c \<le> 971"
    and rho_eq: "\<rho> = of_int N * 2 powi c" by (auto simp: representable_def)
  have "(X \<le> \<rho> \<longrightarrow> y \<le> \<rho>) \<and> (\<rho> \<le> X \<longrightarrow> \<rho> \<le> y)"
  proof (cases "G + 1 \<le> c")
    case True
    define J where "J = N * 2 ^ nat (c - (G + 1))"
    have Jv: "\<rho> = of_int J * 2 powi (G + 1)"
      unfolding J_def rho_eq by (rule dy_eq [OF True, symmetric])
    have XJ: "(X \<le> \<rho>) = (n \<le> J * m2)"
    proof -
      have "(X \<le> \<rho>) = (of_int n / of_int m2 \<le> (of_int J :: real))"
        unfolding X_def Jv by (rule mult_le_cancel_right_pos) simp
      also have "\<dots> = ((of_int n :: real) \<le> of_int (J * m2))"
        using m2 by (simp add: pos_divide_le_eq)
      finally show ?thesis by (simp only: of_int_le_iff)
    qed
    have JX: "(\<rho> \<le> X) = (J * m2 \<le> n)"
    proof -
      have "(\<rho> \<le> X) = ((of_int J :: real) \<le> of_int n / of_int m2)"
        unfolding X_def Jv by (rule mult_le_cancel_right_pos) simp
      also have "\<dots> = ((of_int (J * m2) :: real) \<le> of_int n)"
        using m2 by (simp add: pos_le_divide_eq)
      finally show ?thesis by (simp only: of_int_le_iff)
    qed
    have yJ: "y \<le> \<rho>" if "q + 1 \<le> J"
    proof -
      from that have "2 * q + 1 \<le> 2 * J" by simp
      then have "(of_int (2 * q + 1) :: real) \<le> of_int (2 * J)" by (simp only: of_int_le_iff)
      then have "of_int (2 * q + 1) * (2::real) powi G \<le> of_int (2 * J) * 2 powi G"
        by (intro mult_right_mono) simp_all
      then show ?thesis unfolding y_def Jv g by simp
    qed
    have Jy: "\<rho> \<le> y" if "J \<le> q"
    proof -
      from that have "2 * J \<le> 2 * q + 1" by simp
      then have "(of_int (2 * J) :: real) \<le> of_int (2 * q + 1)" by (simp only: of_int_le_iff)
      then have "of_int (2 * J) * (2::real) powi G \<le> of_int (2 * q + 1) * 2 powi G"
        by (intro mult_right_mono) simp_all
      then show ?thesis unfolding y_def Jv g by simp
    qed
    have a: "y \<le> \<rho>" if "X \<le> \<rho>"
    proof -
      from that XJ have "q * m2 + t \<le> J * m2" by (simp add: d)
      with t have "q * m2 < J * m2" by linarith
      with m2 have "q < J" by (simp add: mult_less_cancel_right)
      then show ?thesis by (intro yJ) simp
    qed
    have b: "\<rho> \<le> y" if "\<rho> \<le> X"
    proof -
      from that JX have "J * m2 \<le> q * m2 + t" by (simp add: d)
      with t have "J * m2 < q * m2 + m2" by linarith
      then have "J * m2 < (q + 1) * m2" by (simp add: algebra_simps)
      with m2 have "J < q + 1" by (simp add: mult_less_cancel_right)
      then show ?thesis by (intro Jy) simp
    qed
    from a b show ?thesis by blast
  next
    case False
    then have c1: "c + 1 \<le> G + 1" by simp
    have "\<rho> \<le> \<bar>of_int N\<bar> * 2 powi c" unfolding rho_eq by (simp add: abs_mult flip: abs_le_iff)
    also have "\<dots> \<le> 2 ^ 53 * 2 powi c"
    proof -
      have "\<bar>N\<bar> \<le> 2 ^ 53" using N by simp
      then have "(of_int \<bar>N\<bar> :: real) \<le> of_int (2 ^ 53)" by (simp only: of_int_le_iff)
      then show ?thesis by (intro mult_right_mono) simp_all
    qed
    also have "\<dots> = 2 ^ 52 * 2 powi (c + 1)" by (simp add: power_int_add)
    also have "\<dots> \<le> 2 ^ 52 * 2 powi (G + 1)"
      using c1 by (intro mult_left_mono power_int_increasing) simp_all
    also have "\<dots> \<le> of_int q * 2 powi (G + 1)"
    proof -
      have "(2::int) ^ 52 \<le> q" using q57 by simp
      then have "(of_int (2 ^ 52) :: real) \<le> of_int q" by (simp only: of_int_le_iff)
      then show ?thesis by (intro mult_right_mono) simp_all
    qed
    finally have "\<rho> \<le> of_int q * 2 powi (G + 1)" .
    with Xq yq show ?thesis by simp
  qed
  then show ?thesis by (simp add: X_def y_def q_def)
qed


lemma sticky_error:
  assumes m2: "0 < m2" "m2 < 2 ^ 53" and n: "2 ^ 110 \<le> n" and r: "n mod m2 \<noteq> 0"
  shows "\<bar>of_int (2 * (n div m2) + 1) * (2::real) powi G - of_int n / of_int m2 * 2 powi (G + 1)\<bar>
     \<le> (of_int n / of_int m2 * 2 powi (G + 1)) / 2 ^ 58"
proof -
  define q where "q = n div m2"
  define t where "t = n mod m2"
  define P where "P = (2::real) powi (G + 1)"
  define z where "z = (of_int n :: real) / of_int m2"
  have d: "n = q * m2 + t" unfolding q_def t_def by (rule div_mult_mod_eq [symmetric])
  have t: "0 < t" "t < m2"
  proof -
    have "0 \<le> n mod m2" using m2 by simp
    with r show "0 < t" by (simp add: t_def)
    show "t < m2" using m2 by (simp add: t_def)
  qed
  have q57: "2 ^ 57 \<le> q"
  proof -
    have "(2::int) ^ 57 * m2 \<le> 2 ^ 57 * 2 ^ 53" using m2 by (intro mult_left_mono) simp_all
    also have "\<dots> \<le> n" using n by simp
    finally have "(2 ^ 57 * m2) div m2 \<le> n div m2" by (intro zdiv_mono1 m2)
    with m2 show ?thesis by (simp add: q_def)
  qed
  have m2r: "(0::real) < of_int m2" using m2 by simp
  have zq: "of_int q < z"
  proof -
    have "q * m2 < n" using t d by linarith
    then have "(of_int (q * m2) :: real) < of_int n" by (simp only: of_int_less_iff)
    then show ?thesis unfolding z_def using m2r by (simp add: pos_less_divide_eq)
  qed
  have zq1: "z < of_int q + 1"
  proof -
    have "n < (q + 1) * m2" using t d by (simp add: algebra_simps)
    then have "(of_int n :: real) < of_int ((q + 1) * m2)" by (simp only: of_int_less_iff)
    then show ?thesis unfolding z_def using m2r by (simp add: pos_divide_less_eq)
  qed
  have "(of_int ((2::int) ^ 57) :: real) \<le> of_int q" using q57 by (simp only: of_int_le_iff)
  then have q57r: "(2::real) ^ 57 \<le> of_int q" by simp
  have P0: "0 < P" by (simp add: P_def)
  have g: "(2::real) powi G = P / 2" by (simp add: P_def power_int_add)
  have "of_int (2 * q + 1) * 2 powi G - z * P = (of_int q + 1 / 2 - z) * P"
    by (simp add: g algebra_simps)
  then have "\<bar>of_int (2 * q + 1) * 2 powi G - z * P\<bar> = \<bar>of_int q + 1 / 2 - z\<bar> * P"
    using P0 by (simp add: abs_mult)
  also have "\<dots> \<le> (1 / 2) * P"
  proof (intro mult_right_mono)
    show "\<bar>of_int q + 1 / 2 - z\<bar> \<le> 1 / 2" using zq zq1 by linarith
    show "0 \<le> P" using P0 by simp
  qed
  also have "\<dots> \<le> (z / 2 ^ 58) * P"
  proof (intro mult_right_mono)
    have "(1::real) / 2 = 2 ^ 57 / 2 ^ 58" by simp
    also have "\<dots> \<le> z / 2 ^ 58" using q57r zq by (intro divide_right_mono) simp_all
    finally show "(1::real) / 2 \<le> z / 2 ^ 58" .
    show "0 \<le> P" using P0 by simp
  qed
  also have "\<dots> = (z * P) / 2 ^ 58" by simp
  finally show ?thesis unfolding z_def P_def q_def .
qed


lemma ddiv_rounds:
  assumes "is_finite a" "is_finite b" "valid a" "valid b" "dval b \<noteq> 0"
  shows "rounds (dval a / dval b) (ddiv a b)"
proof -
  from assms(1) obtain s1 m1 e1 where a: "a = Finite s1 m1 e1" by (cases a) auto
  from assms(2) obtain s2 m2 e2 where b: "b = Finite s2 m2 e2" by (cases b) auto
  from assms(3) have m1: "0 \<le> m1" by (simp add: a)
  from assms(4,5) have m2: "0 < m2" "m2 < 2 ^ 53" by (auto simp: b signed_def split: if_splits)
  define n where "n = m1 * 2 ^ 110"
  define q where "q = n div m2"
  define t where "t = n mod m2"
  define s where "s = (s1 \<noteq> s2)"
  define G where "G = e1 - e2 - 111"
  define M where "M = 2 * q + (if t = 0 then 0 else 1)"
  define sg :: real where "sg = (if s then - 1 else 1)"
  define Xm where "Xm = of_int n / of_int m2 * (2::real) powi (G + 1)"
  define ym where "ym = of_int M * (2::real) powi G"
  have n0: "0 \<le> n" using m1 by (simp add: n_def)
  have q0: "0 \<le> q" using n0 m2 by (simp add: q_def pos_imp_zdiv_nonneg_iff)
  have M0: "0 \<le> M" using q0 by (simp add: M_def)
  have dd: "ddiv a b = fround s M G"
    using m2 by (simp add: a b Let_def n_def q_def t_def s_def G_def M_def)
  have sg_abs: "\<bar>sg\<bar> = 1" "sg * sg = 1" by (simp_all add: sg_def)
  have X: "dval a / dval b = sg * Xm"
  proof -
    have p: "(2::real) powi e1 = 2 ^ 110 * 2 powi (G + 1) * 2 powi e2"
    proof -
      have "(2::real) powi e1 = 2 powi (110 + (G + 1) + e2)" by (simp add: G_def)
      also have "\<dots> = 2 powi 110 * 2 powi (G + 1) * 2 powi e2"
        by (simp only: power_int_add [of "2::real", simplified])
      finally show ?thesis by simp
    qed
    have r0: "of_int (signed s1 m1) / (of_int (signed s2 m2) :: real) = sg * (of_int m1 / of_int m2)"
      by (simp add: signed_def sg_def s_def)
    have r1: "dval a / dval b
        = (of_int (signed s1 m1) / of_int (signed s2 m2)) * ((2::real) powi e1 / 2 powi e2)"
      by (simp add: a b)
    have r2: "(2::real) powi e1 / 2 powi e2 = 2 ^ 110 * 2 powi (G + 1)"
      unfolding p by simp
    have r3: "Xm = (of_int m1 / of_int m2) * (2 ^ 110 * (2::real) powi (G + 1))"
      by (simp add: Xm_def n_def)
    show ?thesis unfolding r1 r2 r3 r0 by (simp only: mult.assoc)
  qed
  have x: "of_int (signed s M) * (2::real) powi G = sg * ym"
    by (simp add: signed_def sg_def ym_def)
  have R: "rounds (sg * ym) (fround s M G)"
    using rounds_fround [OF M0, of s G] by (simp only: x)
  show ?thesis
  proof (cases "t = 0")
    case True
    then have "n = q * m2" using div_mult_mod_eq [of n m2] by (simp add: q_def t_def)
    then have "(of_int n :: real) / of_int m2 = of_int q" using m2 by simp
    then have "Xm = ym"
      using True by (simp add: Xm_def ym_def M_def power_int_add)
    with R show ?thesis by (simp add: X dd)
  next
    case False
    have "m1 \<noteq> 0" using False by (auto simp: t_def n_def)
    with m1 have n110: "2 ^ 110 \<le> n" by (simp add: n_def)
    have t': "n mod m2 \<noteq> 0" using False by (simp add: t_def)
    have Mq: "M = 2 * (n div m2) + 1" using False by (simp add: M_def q_def)
    have btw: "(Xm \<le> \<rho> \<longrightarrow> ym \<le> \<rho>) \<and> (\<rho> \<le> Xm \<longrightarrow> \<rho> \<le> ym)" if "representable \<rho>" for \<rho>
      using sticky_between [OF m2 n110 t' that, of G] by (simp only: Xm_def ym_def Mq)
    have serr: "\<bar>ym - Xm\<bar> \<le> Xm / 2 ^ 58"
      using sticky_error [OF m2 n110 t', of G] by (simp only: Xm_def ym_def Mq)
    have Xm0: "0 \<le> Xm" using n0 m2 by (simp add: Xm_def)
    have ym0: "0 \<le> ym" using M0 by (simp add: ym_def)
    have up: "sg * ym \<le> \<rho>" if "representable \<rho>" "sg * Xm \<le> \<rho>" for \<rho>
    proof (cases s)
      case False
      with that btw [of \<rho>] show ?thesis by (simp add: sg_def)
    next
      case True
      with that btw [of "- \<rho>"] representable_neg [of \<rho>] show ?thesis by (simp add: sg_def)
    qed
    have down: "\<rho> \<le> sg * ym" if "representable \<rho>" "\<rho> \<le> sg * Xm" for \<rho>
    proof (cases s)
      case False
      with that btw [of \<rho>] show ?thesis by (simp add: sg_def)
    next
      case True
      with that btw [of "- \<rho>"] representable_neg [of \<rho>] show ?thesis by (simp add: sg_def)
    qed
    have err: "\<bar>dval (fround s M G) - sg * Xm\<bar> \<le> \<bar>sg * Xm\<bar> / 2 ^ 52 + 2 powi (- 1075)"
      if fin: "is_finite (fround s M G)"
    proof -
      define \<eta> where "\<eta> = (2::real) powi (- 1075)"
      have a1: "\<bar>sg * ym\<bar> = ym" "\<bar>sg * Xm\<bar> = Xm"
        using ym0 Xm0 by (simp_all add: abs_mult sg_abs)
      have "\<bar>dval (fround s M G) - sg * ym\<bar> \<le> \<bar>sg * ym\<bar> / 2 ^ 53 + 2 powi (- 1075)"
        using fround_error [OF M0 fin] by (simp only: x)
      then have e1: "\<bar>dval (fround s M G) - sg * ym\<bar> \<le> ym / 2 ^ 53 + \<eta>"
        unfolding a1 \<eta>_def .
      have "sg * ym - sg * Xm = sg * (ym - Xm)" by (simp add: algebra_simps)
      then have e2: "\<bar>sg * ym - sg * Xm\<bar> = \<bar>ym - Xm\<bar>" by (simp add: abs_mult sg_abs)
      have e3: "ym \<le> Xm + Xm / 2 ^ 58" using serr by linarith
      have "\<bar>dval (fround s M G) - sg * Xm\<bar>
          \<le> \<bar>dval (fround s M G) - sg * ym\<bar> + \<bar>sg * ym - sg * Xm\<bar>" by linarith
      also have "\<dots> \<le> (ym / 2 ^ 53 + \<eta>) + Xm / 2 ^ 58" using e1 e2 serr by linarith
      also have "\<dots> \<le> ((Xm + Xm / 2 ^ 58) / 2 ^ 53 + \<eta>) + Xm / 2 ^ 58"
        using e3 by (simp add: divide_right_mono)
      also have "\<dots> \<le> Xm / 2 ^ 52 + \<eta>" using Xm0 by (simp add: field_simps)
      finally show ?thesis unfolding a1 \<eta>_def .
    qed
    have "rounds (sg * Xm) (fround s M G)"
      unfolding rounds_def
    proof (intro conjI allI impI)
      show "valid (fround s M G)" "fround s M G \<noteq> NaN" using R by (simp_all add: rounds_def)
    next
      fix \<rho> assume "representable \<rho> \<and> sg * Xm \<le> \<rho>"
      then have h: "representable \<rho> \<and> sg * ym \<le> \<rho>" using up by blast
      with R show "fround s M G \<noteq> Infinity False" unfolding rounds_def by blast
      assume "is_finite (fround s M G)"
      with R h show "dval (fround s M G) \<le> \<rho>" unfolding rounds_def by blast
    next
      fix \<rho> assume "representable \<rho> \<and> \<rho> \<le> sg * Xm"
      then have h: "representable \<rho> \<and> \<rho> \<le> sg * ym" using down by blast
      with R show "fround s M G \<noteq> Infinity True" unfolding rounds_def by blast
      assume "is_finite (fround s M G)"
      with R h show "\<rho> \<le> dval (fround s M G)" unfolding rounds_def by blast
    next
      assume "is_finite (fround s M G)"
      then show "\<bar>dval (fround s M G) - sg * Xm\<bar> \<le> \<bar>sg * Xm\<bar> / 2 ^ 52 + 2 powi (- 1075)"
        by (rule err)
    qed
    then show ?thesis by (simp only: X dd)
  qed
qed

section \<open>The palette\<close>

lemma representable_zero: "representable 0"
  using representable_int [of 0] by simp

lemma dmul_le:
  assumes fa: "bounded a A p" and fb: "bounded b B q"
    and AB: "0 \<le> A" "0 \<le> B" "A * B < 2 ^ 53" "p + q \<le> 1074"
  shows "bounded (dmul a b) (A * B) (p + q)"
proof -
  have r: "rounds (dval a * dval b) (dmul a b)"
    using fa fb by (intro dmul_rounds) (simp_all add: bounded_def)
  have "0 \<le> A * B" using AB by simp
  then have hi: "representable (of_int (A * B) / 2 ^ (p + q))"
    using AB by (intro representable_dyadic) simp_all
  have x0: "0 \<le> dval a * dval b" using fa fb by (simp add: bounded_def)
  have "dval a * dval b \<le> (of_int A / 2 ^ p) * (of_int B / 2 ^ q)"
    using fa fb by (intro mult_mono) (simp_all add: bounded_def)
  also have "\<dots> = of_int (A * B) / 2 ^ (p + q)" by (simp add: power_add)
  finally have x1: "dval a * dval b \<le> of_int (A * B) / 2 ^ (p + q)" .
  from rounds_between [OF r representable_zero hi x0 x1] show ?thesis by (simp add: bounded_def)
qed

lemma double_of_int_le:
  assumes "0 \<le> i" "i < 2 ^ 53"
  shows "bounded (double_of_int i) i 0"
  using double_of_int_exact [of i] assms by (simp add: bounded_def)

lemma grid_check: "\<forall>k \<in> {0..127}. grid_ok k"
  by code_simp

lemma palette_t_grid:
  assumes i: "i \<le> 1000" and k: "0 \<le> k" "k \<le> 127" "125 * k \<le> 16 * int i" "16 * int i \<le> 125 * (k + 1)"
  shows "bounded (palette_t i) (k + 1) 7" and "bounded (one_minus (palette_t i)) (128 - k) 7"
proof -
  let ?t = "palette_t i"
  have di: "is_finite (double_of_int (int i)) \<and> valid (double_of_int (int i)) \<and>
      dval (double_of_int (int i)) = of_int (int i)"
    using i by (intro double_of_int_exact) simp
  have dm: "is_finite (double_of_int 1000) \<and> valid (double_of_int 1000) \<and>
      dval (double_of_int 1000) = of_int 1000"
    by (intro double_of_int_exact) simp
  have r: "rounds (of_int (int i) / of_int 1000) ?t"
    using ddiv_rounds [of "double_of_int (int i)" "double_of_int 1000"] di dm
    by (simp add: palette_t_def MAX_ITER_def)
  have lo: "representable (of_int k / 2 ^ 7)"
    using k by (intro representable_dyadic) simp_all
  have hi: "representable (of_int (k + 1) / 2 ^ 7)"
    using k by (intro representable_dyadic) simp_all
  have x0: "(of_int k :: real) / 2 ^ 7 \<le> of_int (int i) / of_int 1000"
  proof -
    have "(of_int (125 * k) :: real) \<le> of_int (16 * int i)" using k(3) by (simp only: of_int_le_iff)
    then show ?thesis by (simp add: field_simps)
  qed
  have x1: "(of_int (int i) :: real) / of_int 1000 \<le> of_int (k + 1) / 2 ^ 7"
  proof -
    have "(of_int (16 * int i) :: real) \<le> of_int (125 * (k + 1))"
      using k(4) by (simp only: of_int_le_iff)
    then show ?thesis by (simp add: field_simps)
  qed
  from rounds_between [OF r lo hi x0 x1]
  have t: "is_finite ?t" "valid ?t" "of_int k / 2 ^ 7 \<le> dval ?t" "dval ?t \<le> of_int (k + 1) / 2 ^ 7"
    by simp_all
  have "(0::real) \<le> of_int k / 2 ^ 7" using k by simp
  with t show "bounded ?t (k + 1) 7" by (simp add: bounded_def)
  have d1: "is_finite (double_of_int 1) \<and> valid (double_of_int 1) \<and> dval (double_of_int 1) = of_int 1"
    by (intro double_of_int_exact) simp
  have r1: "rounds (of_int 1 - dval ?t) (one_minus ?t)"
    using dsub_rounds [of "double_of_int 1" ?t] d1 t by (simp add: one_minus_def)
  have lo1: "representable (of_int (127 - k) / 2 ^ 7)"
    using k by (intro representable_dyadic) simp_all
  have hi1: "representable (of_int (128 - k) / 2 ^ 7)"
    using k by (intro representable_dyadic) simp_all
  have y0: "(of_int (127 - k) :: real) / 2 ^ 7 \<le> of_int 1 - dval ?t"
    using t(4) by (simp add: field_simps)
  have y1: "of_int 1 - dval ?t \<le> (of_int (128 - k) :: real) / 2 ^ 7"
    using t(3) by (simp add: field_simps)
  from rounds_between [OF r1 lo1 hi1 y0 y1]
  have u: "is_finite (one_minus ?t)" "valid (one_minus ?t)"
    "of_int (127 - k) / 2 ^ 7 \<le> dval (one_minus ?t)"
    "dval (one_minus ?t) \<le> of_int (128 - k) / 2 ^ 7"
    by simp_all
  have "(0::real) \<le> of_int (127 - k) / 2 ^ 7" using k by simp
  with u show "bounded (one_minus ?t) (128 - k) 7" by (simp add: bounded_def)
qed

lemma channel_bound:
  assumes "bounded d (n * 255) p" and "n \<le> 2 ^ p"
  shows "is_finite d \<and> valid d \<and> 0 \<le> dval d \<and> dval d \<le> 255"
proof -
  have "n * 255 \<le> 2 ^ p * 255" using assms(2) by simp
  then have "(of_int (n * 255) :: real) \<le> of_int (2 ^ p * 255)" by (simp only: of_int_le_iff)
  then have "(of_int (n * 255) :: real) / 2 ^ p \<le> 255" by (simp add: field_simps)
  with assms(1) show ?thesis unfolding bounded_def by linarith
qed

lemma palette_channels_grid:
  assumes T: "bounded t (k + 1) 7" and U: "bounded (one_minus t) (128 - k) 7" and g: "grid_ok k"
  shows "is_finite (red t) \<and> valid (red t) \<and> 0 \<le> dval (red t) \<and> dval (red t) \<le> 255"
    and "is_finite (green t) \<and> valid (green t) \<and> 0 \<le> dval (green t) \<and> dval (green t) \<le> 255"
    and "is_finite (blue t) \<and> valid (blue t) \<and> 0 \<le> dval (blue t) \<and> dval (blue t) \<le> 255"
proof -
  let ?u = "one_minus t"
  from g have u0: "0 \<le> 128 - k" and t0: "0 \<le> k + 1"
    and r: "9 * (128 - k) < 2 ^ 53" "9 * (128 - k) * (k + 1) < 2 ^ 53"
      "9 * (128 - k) * (k + 1) * (k + 1) < 2 ^ 53"
      "9 * (128 - k) * (k + 1) * (k + 1) * (k + 1) \<le> 2 ^ 28"
    and gr: "15 * (128 - k) < 2 ^ 53" "15 * (128 - k) * (128 - k) < 2 ^ 53"
      "15 * (128 - k) * (128 - k) * (k + 1) < 2 ^ 53"
      "15 * (128 - k) * (128 - k) * (k + 1) * (k + 1) \<le> 2 ^ 28"
    and bl: "17 * (128 - k) < 2 ^ 53" "17 * (128 - k) * (128 - k) < 2 ^ 53"
      "17 * (128 - k) * (128 - k) * (128 - k) < 2 ^ 53"
      "17 * (128 - k) * (128 - k) * (128 - k) * (k + 1) \<le> 2 ^ 29"
    by (simp_all add: grid_ok_def Let_def)
  have c9: "bounded (double_of_int 9) 9 0" by (rule double_of_int_le) simp_all
  have c15: "bounded (double_of_int 15) 15 0" by (rule double_of_int_le) simp_all
  have c255: "bounded (double_of_int 255) 255 0" by (rule double_of_int_le) simp_all
  have c17: "bounded (dlit 17 2) 17 1"
  proof -
    have a: "is_finite (double_of_int 17) \<and> valid (double_of_int 17) \<and>
        dval (double_of_int 17) = of_int 17"
      by (intro double_of_int_exact) simp
    have b: "is_finite (double_of_int 2) \<and> valid (double_of_int 2) \<and>
        dval (double_of_int 2) = of_int 2"
      by (intro double_of_int_exact) simp
    have "rounds (of_int 17 / of_int 2) (dlit 17 2)"
      using ddiv_rounds [of "double_of_int 17" "double_of_int 2"] a b by (simp add: dlit_def)
    moreover have "representable (of_int 17 / 2 ^ 1)" by (intro representable_dyadic) simp_all
    ultimately show ?thesis
      using rounds_exact [of "of_int 17 / of_int 2" "dlit 17 2"] by (simp add: bounded_def)
  qed
  have r1: "bounded (dmul (double_of_int 9) ?u) (9 * (128 - k)) (0 + 7)"
    by (rule dmul_le [OF c9 U]) (use u0 r in simp_all)
  have r2: "bounded (dmul (dmul (double_of_int 9) ?u) t) (9 * (128 - k) * (k + 1)) (0 + 7 + 7)"
    by (rule dmul_le [OF r1 T]) (use u0 t0 r in simp_all)
  have r3: "bounded (dmul (dmul (dmul (double_of_int 9) ?u) t) t)
      (9 * (128 - k) * (k + 1) * (k + 1)) (0 + 7 + 7 + 7)"
    by (rule dmul_le [OF r2 T]) (use u0 t0 r in simp_all)
  have r4: "bounded (dmul (dmul (dmul (dmul (double_of_int 9) ?u) t) t) t)
      (9 * (128 - k) * (k + 1) * (k + 1) * (k + 1)) (0 + 7 + 7 + 7 + 7)"
    by (rule dmul_le [OF r3 T]) (use u0 t0 r in simp_all)
  have r5: "bounded (red t) (9 * (128 - k) * (k + 1) * (k + 1) * (k + 1) * 255) (0 + 7 + 7 + 7 + 7 + 0)"
    unfolding red_def by (rule dmul_le [OF r4 c255]) (use u0 t0 r in simp_all)
  show "is_finite (red t) \<and> valid (red t) \<and> 0 \<le> dval (red t) \<and> dval (red t) \<le> 255"
    by (rule channel_bound [OF r5]) (use r(4) in simp)
  have g1: "bounded (dmul (double_of_int 15) ?u) (15 * (128 - k)) (0 + 7)"
    by (rule dmul_le [OF c15 U]) (use u0 gr in simp_all)
  have g2: "bounded (dmul (dmul (double_of_int 15) ?u) ?u) (15 * (128 - k) * (128 - k)) (0 + 7 + 7)"
    by (rule dmul_le [OF g1 U]) (use u0 t0 gr in simp_all)
  have g3: "bounded (dmul (dmul (dmul (double_of_int 15) ?u) ?u) t)
      (15 * (128 - k) * (128 - k) * (k + 1)) (0 + 7 + 7 + 7)"
    by (rule dmul_le [OF g2 T]) (use u0 t0 gr in simp_all)
  have g4: "bounded (dmul (dmul (dmul (dmul (double_of_int 15) ?u) ?u) t) t)
      (15 * (128 - k) * (128 - k) * (k + 1) * (k + 1)) (0 + 7 + 7 + 7 + 7)"
    by (rule dmul_le [OF g3 T]) (use u0 t0 gr in simp_all)
  have g5: "bounded (green t) (15 * (128 - k) * (128 - k) * (k + 1) * (k + 1) * 255)
      (0 + 7 + 7 + 7 + 7 + 0)"
    unfolding green_def by (rule dmul_le [OF g4 c255]) (use u0 t0 gr in simp_all)
  show "is_finite (green t) \<and> valid (green t) \<and> 0 \<le> dval (green t) \<and> dval (green t) \<le> 255"
    by (rule channel_bound [OF g5]) (use gr(4) in simp)
  have b1: "bounded (dmul (dlit 17 2) ?u) (17 * (128 - k)) (1 + 7)"
    by (rule dmul_le [OF c17 U]) (use u0 bl in simp_all)
  have b2: "bounded (dmul (dmul (dlit 17 2) ?u) ?u) (17 * (128 - k) * (128 - k)) (1 + 7 + 7)"
    by (rule dmul_le [OF b1 U]) (use u0 t0 bl in simp_all)
  have b3: "bounded (dmul (dmul (dmul (dlit 17 2) ?u) ?u) ?u)
      (17 * (128 - k) * (128 - k) * (128 - k)) (1 + 7 + 7 + 7)"
    by (rule dmul_le [OF b2 U]) (use u0 t0 bl in simp_all)
  have b4: "bounded (dmul (dmul (dmul (dmul (dlit 17 2) ?u) ?u) ?u) t)
      (17 * (128 - k) * (128 - k) * (128 - k) * (k + 1)) (1 + 7 + 7 + 7 + 7)"
    by (rule dmul_le [OF b3 T]) (use u0 t0 bl in simp_all)
  have b5: "bounded (blue t) (17 * (128 - k) * (128 - k) * (128 - k) * (k + 1) * 255)
      (1 + 7 + 7 + 7 + 7 + 0)"
    unfolding blue_def by (rule dmul_le [OF b4 c255]) (use u0 t0 bl in simp_all)
  show "is_finite (blue t) \<and> valid (blue t) \<and> 0 \<le> dval (blue t) \<and> dval (blue t) \<le> 255"
    by (rule channel_bound [OF b5]) (use bl(4) in simp)
qed


lemma u8_of_double_floor:
  assumes "is_finite d" "valid d" "0 \<le> dval d" "dval d < 256"
  shows "u8_of_double d = Some (word_of_int \<lfloor>dval d\<rfloor>)"
proof -
  from assms(1) obtain s m e where d: "d = Finite s m e" by (cases d) auto
  from assms(2) have m: "0 \<le> m" by (simp add: d)
  define t where "t = (if 0 \<le> e then m * 2 ^ nat e else m div 2 ^ nat (- e))"
  have t0: "0 \<le> t" using m by (simp add: t_def pos_imp_zdiv_nonneg_iff)
  have fl: "\<lfloor>of_int m * (2::real) powi e\<rfloor> = t"
  proof (cases "0 \<le> e")
    case True
    then have "of_int m * (2::real) powi e = of_int (m * 2 ^ nat e)"
      by (simp add: power_int_def)
    then show ?thesis using True by (simp only: floor_of_int t_def if_True)
  next
    case False
    then have "of_int m * (2::real) powi e = of_int m / of_int (2 ^ nat (- e))"
      by (simp add: power_int_def field_simps)
    then show ?thesis using False by (simp only: floor_divide_of_int_eq t_def if_False)
  qed
  show ?thesis
  proof (cases "m = 0")
    case True
    then show ?thesis by (simp add: d signed_def)
  next
    case False
    have s: "\<not> s"
    proof
      assume s
      with m False have "of_int (signed s m) < (0::real)" by (simp add: signed_def)
      then have "dval d < 0" unfolding d dval.simps by (intro mult_neg_pos) simp_all
      with assms(3) show False by simp
    qed
    then have dv: "dval d = of_int m * 2 powi e" by (simp add: d signed_def)
    have "\<lfloor>dval d\<rfloor> \<le> 255" using assms(4) by (simp add: floor_le_iff)
    then have "t \<le> 255" by (simp add: dv fl)
    with t0 s show ?thesis by (simp add: d dv fl signed_def Let_def flip: t_def)
  qed
qed

lemma grid_index:
  assumes "i \<le> 1000"
  obtains k where "k \<in> {0..127}" "125 * k \<le> 16 * int i" "16 * int i \<le> 125 * (k + 1)"
proof -
  define k where "k = min 127 ((16 * int i) div 125)"
  have a: "125 * ((16 * int i) div 125) \<le> 16 * int i"
    and b: "16 * int i < 125 * ((16 * int i) div 125) + 125"
    using div_mult_mod_eq [of "16 * int i" 125]
      pos_mod_sign [of 125 "16 * int i"] pos_mod_bound [of 125 "16 * int i"] by linarith+
  have "0 \<le> (16 * int i) div 125" by (simp add: pos_imp_zdiv_nonneg_iff)
  then have 1: "k \<in> {0..127}" by (simp add: k_def)
  have 2: "125 * k \<le> 16 * int i" using a by (simp add: k_def min_def)
  have 3: "16 * int i \<le> 125 * (k + 1)" using b assms by (simp add: k_def min_def)
  from that [OF 1 2 3] show ?thesis .
qed

lemma palette_channels:
  assumes "i \<le> MAX_ITER"
  shows "is_finite (red (palette_t i)) \<and> valid (red (palette_t i)) \<and>
         0 \<le> dval (red (palette_t i)) \<and> dval (red (palette_t i)) \<le> 255"
    and "is_finite (green (palette_t i)) \<and> valid (green (palette_t i)) \<and>
         0 \<le> dval (green (palette_t i)) \<and> dval (green (palette_t i)) \<le> 255"
    and "is_finite (blue (palette_t i)) \<and> valid (blue (palette_t i)) \<and>
         0 \<le> dval (blue (palette_t i)) \<and> dval (blue (palette_t i)) \<le> 255"
proof -
  from assms have i: "i \<le> 1000" by (simp add: MAX_ITER_def)
  from grid_index [OF i] obtain k where k: "k \<in> {0..127}" "125 * k \<le> 16 * int i"
    "16 * int i \<le> 125 * (k + 1)" by blast
  from k(1) have k': "0 \<le> k" "k \<le> 127" by simp_all
  from k(1) grid_check have g: "grid_ok k" by blast
  note tu = palette_t_grid [OF i k' k(2,3)]
  note ch = palette_channels_grid [OF tu g]
  show "is_finite (red (palette_t i)) \<and> valid (red (palette_t i)) \<and>
         0 \<le> dval (red (palette_t i)) \<and> dval (red (palette_t i)) \<le> 255"
    by (rule ch(1))
  show "is_finite (green (palette_t i)) \<and> valid (green (palette_t i)) \<and>
         0 \<le> dval (green (palette_t i)) \<and> dval (green (palette_t i)) \<le> 255"
    by (rule ch(2))
  show "is_finite (blue (palette_t i)) \<and> valid (blue (palette_t i)) \<and>
         0 \<le> dval (blue (palette_t i)) \<and> dval (blue (palette_t i)) \<le> 255"
    by (rule ch(3))
qed

lemma palette_entry_eq:
  assumes "i \<le> MAX_ITER"
  shows "palette_entry i =
     Some (pack (word_of_int \<lfloor>dval (red (palette_t i))\<rfloor>)
                (word_of_int \<lfloor>dval (green (palette_t i))\<rfloor>)
                (word_of_int \<lfloor>dval (blue (palette_t i))\<rfloor>))"
proof -
  note ch = palette_channels [OF assms]
  have "u8_of_double (red (palette_t i)) = Some (word_of_int \<lfloor>dval (red (palette_t i))\<rfloor>)"
    using ch(1) by (intro u8_of_double_floor) simp_all
  moreover have "u8_of_double (green (palette_t i)) = Some (word_of_int \<lfloor>dval (green (palette_t i))\<rfloor>)"
    using ch(2) by (intro u8_of_double_floor) simp_all
  moreover have "u8_of_double (blue (palette_t i)) = Some (word_of_int \<lfloor>dval (blue (palette_t i))\<rfloor>)"
    using ch(3) by (intro u8_of_double_floor) simp_all
  ultimately show ?thesis by (simp add: palette_entry_def Let_def)
qed

lemma fill_palette_entries:
  assumes "length pal = MAX_ITER + 1"
  shows "\<exists>pal'. fill_palette i pal = Some pal' \<and> length pal' = MAX_ITER + 1 \<and>
           (\<forall>j < i. pal' ! j = pal ! j) \<and>
           (\<forall>j. i \<le> j \<and> j \<le> MAX_ITER \<longrightarrow> palette_entry j = Some (pal' ! j))"
  using assms
proof (induction i pal rule: fill_palette.induct)
  case (1 i pal)
  show ?case
  proof (cases "i \<le> MAX_ITER")
    case False
    then have "fill_palette i pal = Some pal" by (subst fill_palette.simps) simp
    with False "1.prems" show ?thesis by auto
  next
    case True
    from palette_entry_eq [OF True] obtain c where c: "palette_entry i = Some c" by blast
    have len: "length (pal[i := c]) = MAX_ITER + 1" using "1.prems" by simp
    from "1.IH" [OF True c len] obtain pal' where
      f: "fill_palette (i + 1) (pal[i := c]) = Some pal'" and l: "length pal' = MAX_ITER + 1"
      and lo: "\<forall>j < i + 1. pal' ! j = pal[i := c] ! j"
      and hi: "\<forall>j. i + 1 \<le> j \<and> j \<le> MAX_ITER \<longrightarrow> palette_entry j = Some (pal' ! j)"
      by blast
    have e: "fill_palette i pal = Some pal'"
      using True c f by (subst fill_palette.simps) simp
    have i: "pal' ! i = c" using lo True "1.prems" by simp
    have below: "\<forall>j < i. pal' ! j = pal ! j" using lo by simp
    have above: "\<forall>j. i \<le> j \<and> j \<le> MAX_ITER \<longrightarrow> palette_entry j = Some (pal' ! j)"
    proof (intro allI impI)
      fix j assume j: "i \<le> j \<and> j \<le> MAX_ITER"
      show "palette_entry j = Some (pal' ! j)"
      proof (cases "j = i")
        case True
        with c i show ?thesis by simp
      next
        case False
        with j hi show ?thesis by simp
      qed
    qed
    from e l below above show ?thesis by blast
  qed
qed


lemma generateColorPalette_entries:
  "\<exists>pal. generateColorPalette = Some pal \<and> length pal = MAX_ITER + 1 \<and>
     (\<forall>j \<le> MAX_ITER. palette_entry j = Some (pal ! j))"
proof -
  have "length colorPalette0 = MAX_ITER + 1" by (simp add: colorPalette0_def)
  from fill_palette_entries [OF this, of 0] show ?thesis
    by (auto simp: generateColorPalette_def)
qed

lemma colorPalette_entry:
  assumes "i \<le> MAX_ITER"
  shows "colorPalette i = palette_entry i"
proof -
  from generateColorPalette_entries obtain pal where
    p: "generateColorPalette = Some pal" "length pal = MAX_ITER + 1"
    and e: "\<forall>j \<le> MAX_ITER. palette_entry j = Some (pal ! j)" by blast
  from assms e have "palette_entry i = Some (pal ! i)" by simp
  with assms show ?thesis by (simp add: colorPalette_def p)
qed

lemma palette_entry_100: "palette_entry 100 = Some 0xFF021E9E"
  by code_simp

lemma spec_color_100: "spec_color 1000 100 = 0xFF021F9E"
  by (simp add: spec_color_def round_def Let_def power3_eq_cube power2_eq_square)

text \<open>
  Claim C10. For every \<open>i \<le> MAX_ITER\<close> the three channel values, as the generator
  computes them in double arithmetic, are finite and lie in \<open>[0, 255]\<close>, so each cast to
  \<^verbatim>\<open>uint8_t\<close> is defined: it neither wraps nor overflows.
\<close>

theorem palette_channels_in_range:
  assumes "i \<le> MAX_ITER"
  shows "is_finite (red (palette_t i)) \<and> 0 \<le> dval (red (palette_t i)) \<and>
         dval (red (palette_t i)) \<le> 255 \<and> u8_of_double (red (palette_t i)) \<noteq> None \<and>
         is_finite (green (palette_t i)) \<and> 0 \<le> dval (green (palette_t i)) \<and>
         dval (green (palette_t i)) \<le> 255 \<and> u8_of_double (green (palette_t i)) \<noteq> None \<and>
         is_finite (blue (palette_t i)) \<and> 0 \<le> dval (blue (palette_t i)) \<and>
         dval (blue (palette_t i)) \<le> 255 \<and> u8_of_double (blue (palette_t i)) \<noteq> None"
proof -
  note ch = palette_channels [OF assms]
  have "u8_of_double (red (palette_t i)) \<noteq> None"
    using ch(1) u8_of_double_floor [of "red (palette_t i)"] by simp
  moreover have "u8_of_double (green (palette_t i)) \<noteq> None"
    using ch(2) u8_of_double_floor [of "green (palette_t i)"] by simp
  moreover have "u8_of_double (blue (palette_t i)) \<noteq> None"
    using ch(3) u8_of_double_floor [of "blue (palette_t i)"] by simp
  ultimately show ?thesis using ch by simp
qed

theorem palette_channels_in_range_witness:
  "750 \<le> MAX_ITER \<and> is_finite (red (palette_t 750)) \<and> 0 \<le> dval (red (palette_t 750)) \<and>
   dval (red (palette_t 750)) \<le> 255 \<and> u8_of_double (red (palette_t 750)) \<noteq> None"
proof -
  have h: "750 \<le> MAX_ITER" by (simp add: MAX_ITER_def)
  from palette_channels_in_range [OF h] h show ?thesis by simp
qed

text \<open>
  Claim C4. The iteration count of a pixel is at most \<open>maxIter\<close>; for every pixel and
  every viewport the lookup \<^verbatim>\<open>colorPalette[iter]\<close> is inside the generated table of
  \<open>MAX_ITER + 1\<close> entries.
\<close>

theorem palette_lookup_in_bounds:
  "pixel_iter maxIter re im \<le> maxIter \<and>
   colorPalette (pixel_iter MAX_ITER (pixel_real m x) (pixel_imag m y)) \<noteq> None \<and>
   (\<exists>pal. generateColorPalette = Some pal \<and> length pal = MAX_ITER + 1 \<and>
      pixel_iter MAX_ITER (pixel_real m x) (pixel_imag m y) < length pal)"
proof -
  have b: "pixel_iter n a b \<le> n" for n a b
  proof -
    have "pixel_iter n a b = spec_loop n a b (dzero, dzero) 0"
      by (simp add: pixel_iter_def escape_loop_spec_loop)
    moreover have "0 \<le> n" "(dzero, dzero) = orbit a b 0" by simp_all
    note spec_loop_orbit [OF this]
    ultimately show ?thesis by simp
  qed
  from generateColorPalette_entries obtain pal where
    p: "generateColorPalette = Some pal" "length pal = MAX_ITER + 1" by blast
  have "pixel_iter MAX_ITER (pixel_real m x) (pixel_imag m y) < length pal"
    using b [of MAX_ITER "pixel_real m x" "pixel_imag m y"] p(2) by simp
  moreover from this have "colorPalette (pixel_iter MAX_ITER (pixel_real m x) (pixel_imag m y)) \<noteq> None"
    by (simp add: colorPalette_def p)
  ultimately show ?thesis using p b [of maxIter re im] by blast
qed

text \<open>
  Claim C5, as amended. For every \<open>i \<le> MAX_ITER\<close>, entry \<open>i\<close> of the table is
  \<open>0xFF << 24 | r << 16 | g << 8 | b\<close> where each channel is the integer part (the cast
  truncates, it does not round) of the double value of its polynomial.
\<close>

theorem palette_entry_truncates:
  assumes "i \<le> MAX_ITER"
  shows "colorPalette i =
     Some (pack (word_of_int \<lfloor>dval (red (palette_t i))\<rfloor>)
                (word_of_int \<lfloor>dval (green (palette_t i))\<rfloor>)
                (word_of_int \<lfloor>dval (blue (palette_t i))\<rfloor>))"
  using assms by (simp add: colorPalette_entry palette_entry_eq)

theorem palette_entry_truncates_witness:
  "100 \<le> MAX_ITER \<and> colorPalette 100 =
     Some (pack (word_of_int \<lfloor>dval (red (palette_t 100))\<rfloor>)
                (word_of_int \<lfloor>dval (green (palette_t 100))\<rfloor>)
                (word_of_int \<lfloor>dval (blue (palette_t 100))\<rfloor>))"
proof -
  have h: "100 \<le> MAX_ITER" by (simp add: MAX_ITER_def)
  from palette_entry_truncates [OF h] h show ?thesis by simp
qed

text \<open>
  Claim C5 as stated fails at \<open>i = 100\<close>: the green channel is \<open>30.9825\<close>, which the
  cast truncates to \<open>30\<close> (\<open>0x1E\<close>) where rounding gives \<open>31\<close> (\<open>0x1F\<close>).
\<close>

theorem palette_entry_round_counterexample:
  "colorPalette 100 = Some 0xFF021E9E \<and> spec_color MAX_ITER 100 = 0xFF021F9E \<and>
   colorPalette 100 \<noteq> Some (spec_color MAX_ITER 100)"
proof -
  have "colorPalette 100 = Some 0xFF021E9E"
    using colorPalette_entry [of 100] palette_entry_100 by (simp add: MAX_ITER_def)
  moreover have "spec_color MAX_ITER 100 = 0xFF021F9E"
    using spec_color_100 by (simp add: MAX_ITER_def)
  ultimately show ?thesis by simp
qed

end
